theory Spec2Isabelle
  imports Complex_Main "HOL-Library.Word"
begin

section \<open>The Mandelbrot kernel of recipe 5.3 (mandelbrot.c)\<close>

text \<open>
  The only program logic of the notebook is the C function
  \<^verbatim>\<open>void mandelbrot(int size, int iterations, int *col)\<close>.
  This theory embeds it and settles the specification's claims about it.

  \<^item> C \<^verbatim>\<open>int\<close> is a 32-bit two's complement word: comparisons are the signed ones,
    \<open>+\<close> and \<open>*\<close> wrap around.
  \<^item> C \<^verbatim>\<open>double\<close> is not available as a HOL type, so the kernel is embedded over an
    arbitrary arithmetic \<open>A\<close>: a record of the operations the code applies to doubles.
    Every theorem holds for every such arithmetic, under the stated hypotheses on it;
    \<open>rat_arith\<close> is the exact one, on which the model runs. The concrete runs on
    small grids below only meet dyadic rationals of a few bits, which doubles represent
    exactly, so they are runs on doubles as well.
  \<^item> The caller's buffer is a list; a store outside it (undefined behaviour in C) is the
    error \<open>OutOfBounds\<close>.
\<close>

subsection \<open>Data\<close>

type_synonym int32 = "32 word"

text \<open>The operations on doubles that the kernel uses. \<open>fint\<close> is the conversion
  \<^verbatim>\<open>(double)i\<close> of an int, \<open>flit\<close> the value of a numeric constant of the program text.\<close>

record 'd arith =
  fadd :: "'d \<Rightarrow> 'd \<Rightarrow> 'd"
  fsub :: "'d \<Rightarrow> 'd \<Rightarrow> 'd"
  fmul :: "'d \<Rightarrow> 'd \<Rightarrow> 'd"
  fdiv :: "'d \<Rightarrow> 'd \<Rightarrow> 'd"
  fle :: "'d \<Rightarrow> 'd \<Rightarrow> bool"
  fgt :: "'d \<Rightarrow> 'd \<Rightarrow> bool"
  fint :: "int \<Rightarrow> 'd"
  flit :: "rat \<Rightarrow> 'd"

definition rat_arith :: "rat arith" where
  "rat_arith =
     \<lparr>fadd = (\<lambda>a b. a + b), fsub = (\<lambda>a b. a - b), fmul = (\<lambda>a b. a * b),
      fdiv = (\<lambda>a b. a / b), fle = (\<lambda>a b. a \<le> b), fgt = (\<lambda>a b. b < a),
      fint = (\<lambda>k. of_int k), flit = (\<lambda>q. q)\<rparr>"

datatype error = OutOfBounds

text \<open>The memory the call can change is the buffer \<open>col\<close>. The other three fields are
  ghost state that only records what the execution did: the index of every store in
  order, and how often the bodies of the \<open>i\<close> loop and of the \<open>j\<close> loop were entered.\<close>

record state =
  col :: "int32 list"
  stores :: "int list"
  rows :: nat
  cells :: nat

subsection \<open>The routine\<close>

text \<open>\<^verbatim>\<open>col[index] = n;\<close>\<close>

definition store :: "int32 \<Rightarrow> int32 \<Rightarrow> state \<Rightarrow> error + state" where
  "store index n s =
     (if 0 \<le> sint index \<and> nat (sint index) < length (col s)
      then Inr (s\<lparr>col := (col s)[nat (sint index) := n], stores := stores s @ [sint index]\<rparr>)
      else Inl OutOfBounds)"

text \<open>\<^verbatim>\<open>for (n = 0; n < iterations; n++) { ... }\<close>, entered at \<open>n\<close> with \<open>z0\<close>, \<open>z1\<close>.
  The result holds the values of \<open>z0\<close> and \<open>z1\<close> when the loop is left.\<close>

function loop_n ::
  "'d arith \<Rightarrow> int32 \<Rightarrow> 'd \<Rightarrow> 'd \<Rightarrow> int32 \<Rightarrow> int32 \<Rightarrow> 'd \<Rightarrow> 'd \<Rightarrow> state
     \<Rightarrow> error + 'd \<times> 'd \<times> state" where
  "loop_n A iterations cx cy index n z0 z1 s =
     (if n <s iterations then
        (let z0_2 = fmul A z0 z0;
             z1_2 = fmul A z1 z1
         in if fle A (fadd A z0_2 z1_2) (flit A 100) then
              (let z0_tmp = fadd A (fsub A z0_2 z1_2) cx;
                   z1 = fadd A (fmul A (fmul A (flit A 2) z0) z1) cy;
                   z0 = z0_tmp
               in case store index n s of
                    Inl e \<Rightarrow> Inl e
                  | Inr s' \<Rightarrow> loop_n A iterations cx cy index (n + 1) z0 z1 s')
            else Inr (z0, z1, s))
      else Inr (z0, z1, s))"
  by pat_completeness auto
termination
proof (relation "measure (\<lambda>(A, iterations, cx, cy, index, n, z0, z1, s).
                    nat (sint iterations - sint n))", goal_cases)
  case 1
  show ?case by simp
next
  case 2
  have succ: "sint (k + 1) = sint k + 1" if "sint k < sint m" for k m :: int32
    using sint_ge [of k] sint_lt [of m] that
    by (simp add: sint_word_ariths signed_take_bit_int_eq_self)
  from 2 show ?case by (auto simp: word_sless_alt dest: succ)
qed

text \<open>\<^verbatim>\<open>cy = -1.5 + (double)i / size * 3;\<close> and \<^verbatim>\<open>cx = -2.0 + (double)j / size * 3;\<close>\<close>

definition cy_of :: "'d arith \<Rightarrow> int32 \<Rightarrow> int32 \<Rightarrow> 'd" where
  "cy_of A size' i =
     fadd A (flit A (- 3 / 2)) (fmul A (fdiv A (fint A (sint i)) (fint A (sint size'))) (flit A 3))"

definition cx_of :: "'d arith \<Rightarrow> int32 \<Rightarrow> int32 \<Rightarrow> 'd" where
  "cx_of A size' j =
     fadd A (flit A (- 2)) (fmul A (fdiv A (fint A (sint j)) (fint A (sint size'))) (flit A 3))"

text \<open>The body of the \<open>j\<close> loop: the computation of the cell \<open>(i, j)\<close>.\<close>

definition cell ::
  "'d arith \<Rightarrow> int32 \<Rightarrow> int32 \<Rightarrow> int32 \<Rightarrow> 'd \<Rightarrow> int32 \<Rightarrow> state \<Rightarrow> error + 'd \<times> 'd \<times> state" where
  "cell A size' iterations i cy j s =
     (let cx = cx_of A size' j;
          index = i * size' + j;
          z0 = flit A 0;
          z1 = flit A 0
      in loop_n A iterations cx cy index 0 z0 z1 s)"

text \<open>\<^verbatim>\<open>for (j = 0; j < size; j++) { ... }\<close>, entered at \<open>j\<close>.\<close>

function loop_j ::
  "'d arith \<Rightarrow> int32 \<Rightarrow> int32 \<Rightarrow> int32 \<Rightarrow> 'd \<Rightarrow> int32 \<Rightarrow> state \<Rightarrow> error + state" where
  "loop_j A size' iterations i cy j s =
     (if j <s size' then
        (case cell A size' iterations i cy j (s\<lparr>cells := Suc (cells s)\<rparr>) of
           Inl e \<Rightarrow> Inl e
         | Inr (z0, z1, s') \<Rightarrow> loop_j A size' iterations i cy (j + 1) s')
      else Inr s)"
  by pat_completeness auto
termination
proof (relation "measure (\<lambda>(A, size', iterations, i, cy, j, s).
                    nat (sint size' - sint j))", goal_cases)
  case 1
  show ?case by simp
next
  case 2
  have succ: "sint (k + 1) = sint k + 1" if "sint k < sint m" for k m :: int32
    using sint_ge [of k] sint_lt [of m] that
    by (simp add: sint_word_ariths signed_take_bit_int_eq_self)
  from 2 show ?case by (auto simp: word_sless_alt dest: succ)
qed

text \<open>\<^verbatim>\<open>for (i = 0; i < size; i++) { ... }\<close>, entered at \<open>i\<close>.\<close>

function loop_i :: "'d arith \<Rightarrow> int32 \<Rightarrow> int32 \<Rightarrow> int32 \<Rightarrow> state \<Rightarrow> error + state" where
  "loop_i A size' iterations i s =
     (if i <s size' then
        (let cy = cy_of A size' i
         in case loop_j A size' iterations i cy 0 (s\<lparr>rows := Suc (rows s)\<rparr>) of
              Inl e \<Rightarrow> Inl e
            | Inr s' \<Rightarrow> loop_i A size' iterations (i + 1) s')
      else Inr s)"
  by pat_completeness auto
termination
proof (relation "measure (\<lambda>(A, size', iterations, i, s). nat (sint size' - sint i))",
    goal_cases)
  case 1
  show ?case by simp
next
  case 2
  have succ: "sint (k + 1) = sint k + 1" if "sint k < sint m" for k m :: int32
    using sint_ge [of k] sint_lt [of m] that
    by (simp add: sint_word_ariths signed_take_bit_int_eq_self)
  from 2 show ?case by (auto simp: word_sless_alt dest: succ)
qed

text \<open>The call \<^verbatim>\<open>mandelbrot(size, iterations, col)\<close> on the buffer \<open>buf\<close>.\<close>

definition mandelbrot :: "'d arith \<Rightarrow> int32 \<Rightarrow> int32 \<Rightarrow> int32 list \<Rightarrow> error + state" where
  "mandelbrot A size' iterations buf =
     loop_i A size' iterations 0 \<lparr>col = buf, stores = [], rows = 0, cells = 0\<rparr>"

subsection \<open>What one cell computes\<close>

text \<open>The test \<^verbatim>\<open>z0_2 + z1_2 <= 100\<close> and the update of \<open>(z0, z1)\<close> in the loop body,
  as functions of the pair.\<close>

definition inside :: "'d arith \<Rightarrow> 'd \<times> 'd \<Rightarrow> bool" where
  "inside A z =
     (case z of (z0, z1) \<Rightarrow> fle A (fadd A (fmul A z0 z0) (fmul A z1 z1)) (flit A 100))"

definition update :: "'d arith \<Rightarrow> 'd \<Rightarrow> 'd \<Rightarrow> 'd \<times> 'd \<Rightarrow> 'd \<times> 'd" where
  "update A cx cy z =
     (case z of (z0, z1) \<Rightarrow>
        (let z0_2 = fmul A z0 z0;
             z1_2 = fmul A z1 z1;
             z0_tmp = fadd A (fsub A z0_2 z1_2) cx;
             z1 = fadd A (fmul A (fmul A (flit A 2) z0) z1) cy;
             z0 = z0_tmp
         in (z0, z1)))"

text \<open>The iterate after \<open>k\<close> updates, from \<open>(0, 0)\<close>.\<close>

definition orbit :: "'d arith \<Rightarrow> 'd \<Rightarrow> 'd \<Rightarrow> nat \<Rightarrow> 'd \<times> 'd" where
  "orbit A cx cy k = (update A cx cy ^^ k) (flit A 0, flit A 0)"

text \<open>How many times the body of the \<open>n\<close> loop takes its update branch when \<open>m\<close> values of
  \<open>n\<close> are left and the iterate is \<open>z\<close>: each of them is one store.\<close>

primrec steps :: "'d arith \<Rightarrow> 'd \<Rightarrow> 'd \<Rightarrow> nat \<Rightarrow> 'd \<times> 'd \<Rightarrow> nat" where
  "steps A cx cy 0 z = 0"
| "steps A cx cy (Suc m) z =
     (if inside A z then Suc (steps A cx cy m (update A cx cy z)) else 0)"

text \<open>The number of stores of the cell at linear position \<open>p\<close>, that is of the cell
  \<open>(p div size, p mod size)\<close>, and the buffer a complete call leaves.\<close>

definition writes :: "'d arith \<Rightarrow> int32 \<Rightarrow> int32 \<Rightarrow> nat \<Rightarrow> nat" where
  "writes A size' iterations p =
     steps A (cx_of A size' (of_nat (p mod nat (sint size'))))
       (cy_of A size' (of_nat (p div nat (sint size'))))
       (nat (sint iterations)) (flit A 0, flit A 0)"

definition picture :: "'d arith \<Rightarrow> int32 \<Rightarrow> int32 \<Rightarrow> int32 list" where
  "picture A size' iterations =
     map (\<lambda>p. of_nat (writes A size' iterations p - 1))
       [0 ..< nat (sint size') * nat (sint size')]"

subsection \<open>The reference algorithm of the specification\<close>

text \<open>The specification's algorithm for one cell, as its section 4.1 words it: the test is
  \<open>z0_sq + z1_sq > 100.0\<close>, \<open>z1_new\<close> is computed before \<open>z0\<close> is assigned, and the step
  index is kept in \<open>result\<close>, which starts at 0 and is written to the buffer after the
  loop.\<close>

function spec_loop ::
  "'d arith \<Rightarrow> int32 \<Rightarrow> 'd \<Rightarrow> 'd \<Rightarrow> int32 \<Rightarrow> 'd \<Rightarrow> 'd \<Rightarrow> int32 \<Rightarrow> 'd \<times> 'd \<times> int32" where
  "spec_loop A iterations cx cy n z0 z1 result =
     (if n <s iterations then
        (let z0_sq = fmul A z0 z0;
             z1_sq = fmul A z1 z1
         in if fgt A (fadd A z0_sq z1_sq) (flit A 100) then (z0, z1, result)
            else
              (let z1_new = fadd A (fmul A (fmul A (flit A 2) z0) z1) cy;
                   z0 = fadd A (fsub A z0_sq z1_sq) cx;
                   z1 = z1_new;
                   result = n
               in spec_loop A iterations cx cy (n + 1) z0 z1 result))
      else (z0, z1, result))"
  by pat_completeness auto
termination
proof (relation "measure (\<lambda>(A, iterations, cx, cy, n, z0, z1, result).
                    nat (sint iterations - sint n))", goal_cases)
  case 1
  show ?case by simp
next
  case 2
  have succ: "sint (k + 1) = sint k + 1" if "sint k < sint m" for k m :: int32
    using sint_ge [of k] sint_lt [of m] that
    by (simp add: sint_word_ariths signed_take_bit_int_eq_self)
  from 2 show ?case by (auto simp: word_sless_alt dest: succ)
qed

definition spec_cell ::
  "'d arith \<Rightarrow> int32 \<Rightarrow> int32 \<Rightarrow> int32 \<Rightarrow> int32 \<Rightarrow> 'd \<times> 'd \<times> int32" where
  "spec_cell A size' iterations i j =
     (let cy = fadd A (flit A (- 3 / 2))
                 (fmul A (fdiv A (fint A (sint i)) (fint A (sint size'))) (flit A 3));
          cx = fadd A (flit A (- 2))
                 (fmul A (fdiv A (fint A (sint j)) (fint A (sint size'))) (flit A 3));
          z0 = flit A 0;
          z1 = flit A 0;
          result = 0
      in spec_loop A iterations cx cy 0 z0 z1 result)"

text \<open>On the iterate \<open>z\<close> the specification's test \<open>> 100.0\<close> is the negation of the code's
  test \<open><= 100\<close>. On doubles this holds whenever the sum of squares is not a NaN.\<close>

definition comparable :: "'d arith \<Rightarrow> 'd \<times> 'd \<Rightarrow> bool" where
  "comparable A z =
     (case z of (z0, z1) \<Rightarrow>
        fgt A (fadd A (fmul A z0 z0) (fmul A z1 z1)) (flit A 100) =
        (\<not> fle A (fadd A (fmul A z0 z0) (fmul A z1 z1)) (flit A 100)))"

subsection \<open>The invariant of the grid loops\<close>

text \<open>The state when the first \<open>P\<close> cells, in row-major order, have been computed on the
  buffer \<open>buf\<close>: every cell that has stored at all has left its last step index at its
  position, the other elements are those of \<open>buf\<close>, and the log holds the stores of the
  cells one after the other.\<close>

definition filled :: "'d arith \<Rightarrow> int32 \<Rightarrow> int32 \<Rightarrow> int32 list \<Rightarrow> nat \<Rightarrow> state \<Rightarrow> bool" where
  "filled A size' iterations buf P s \<longleftrightarrow>
     length (col s) = length buf \<and>
     (\<forall>p < length buf. col s ! p =
        (if p < P \<and> 0 < writes A size' iterations p
         then of_nat (writes A size' iterations p - 1) else buf ! p)) \<and>
     stores s = concat (map (\<lambda>p. replicate (writes A size' iterations p) (int p)) [0 ..< P])"

declare loop_n.simps [simp del] loop_j.simps [simp del] loop_i.simps [simp del]
  spec_loop.simps [simp del]

section \<open>Auxiliary facts\<close>

subsection \<open>Machine integers\<close>

lemma sint_succ: "n <s m \<Longrightarrow> sint (n + 1 :: int32) = sint n + 1"
  using sint_ge [of n] sint_lt [of m]
  by (simp add: word_sless_alt sint_word_ariths signed_take_bit_int_eq_self)

lemma sint_of_nat32: "n < 2 ^ 31 \<Longrightarrow> sint (of_nat n :: int32) = int n"
  by (simp add: signed_of_nat signed_take_bit_int_eq_self)

lemma sint_recorded:
  assumes "0 < k" "k \<le> nat (sint (iterations :: int32))"
  shows "sint (of_nat (k - 1) :: int32) = int k - 1"
proof -
  have "nat (sint iterations) < 2 ^ 31"
    using sint_lt [of iterations] by simp
  then have "k - 1 < 2 ^ 31" using assms by simp
  then have "sint (of_nat (k - 1) :: int32) = int (k - 1)" by (rule sint_of_nat32)
  moreover have "int (k - 1) = int k - 1" using assms by simp
  ultimately show ?thesis by (simp only:)
qed

lemma sint_index:
  assumes "N \<le> 46340" "size' = of_nat N" "i < N" "j < N"
  shows "sint ((of_nat i :: int32) * size' + of_nat j) = int (i * N + j)"
proof -
  have "i * N + j < i * N + N" using assms(4) by simp
  also have "\<dots> = Suc i * N" by simp
  also have "\<dots> \<le> N * N" using assms(3) by (metis Suc_leI mult_le_mono1)
  also have "\<dots> \<le> 46340 * 46340" using assms(1) by (intro mult_le_mono)
  finally have "i * N + j < 2 ^ 31" by simp
  moreover have "(of_nat i :: int32) * size' + of_nat j = of_nat (i * N + j)"
    using assms(2) by simp
  ultimately show ?thesis by (simp only: sint_of_nat32)
qed

lemma index_injective:
  assumes "N \<le> 46340" "size' = of_nat N" "i < N" "j < N" "i' < N" "j' < N"
    and "sint ((of_nat i :: int32) * size' + of_nat j) =
         sint ((of_nat i' :: int32) * size' + of_nat j')"
  shows "i = i' \<and> j = j'"
proof -
  have e: "i * N + j = i' * N + j'"
    using assms(7)
    unfolding sint_index [OF assms(1,2,3,4)] sint_index [OF assms(1,2,5,6)]
    by (simp only: of_nat_eq_iff)
  have "(i * N + j) div N = i" "(i' * N + j') div N = i'"
    using assms(4,6) by simp_all
  with e have "i = i'" by simp
  moreover from e this have "j = j'" by simp
  ultimately show ?thesis by blast
qed

lemma cell_of_position:
  assumes "0 < N" "q < N * N"
  shows "q div N < N \<and> q mod N < N \<and> int q = int (q div N) * int N + int (q mod N)"
proof -
  have "q div N < N" using assms by (simp add: less_mult_imp_div_less)
  moreover have "q mod N < N" using assms by simp
  moreover have "q = q div N * N + q mod N" by simp
  then have "int q = int (q div N * N + q mod N)" by (simp only:)
  then have "int q = int (q div N) * int N + int (q mod N)" by (simp only: of_nat_add of_nat_mult)
  ultimately show ?thesis by blast
qed

subsection \<open>The iteration of one cell\<close>

lemma steps_le: "steps A cx cy m z \<le> m"
  by (induction m arbitrary: z) auto

lemma steps_pos: "0 < m \<Longrightarrow> inside A z \<Longrightarrow> 0 < steps A cx cy m z"
  by (cases m) auto

lemma steps_all_inside:
  "(\<forall>k < m. inside A ((update A cx cy ^^ k) z)) \<Longrightarrow> steps A cx cy m z = m"
proof (induction m arbitrary: z)
  case 0
  show ?case by simp
next
  case (Suc m)
  have "inside A z" using Suc.prems by (auto dest: spec [of _ 0])
  moreover have "\<forall>k < m. inside A ((update A cx cy ^^ k) (update A cx cy z))"
    using Suc.prems by (auto simp: funpow_swap1 dest: spec [of _ "Suc _"])
  ultimately show ?case using Suc.IH by simp
qed

lemma steps_first_escape:
  "n < m \<Longrightarrow> (\<forall>k < n. inside A ((update A cx cy ^^ k) z)) \<Longrightarrow>
     \<not> inside A ((update A cx cy ^^ n) z) \<Longrightarrow> steps A cx cy m z = n"
proof (induction m arbitrary: z n)
  case 0
  then show ?case by simp
next
  case (Suc m)
  show ?case
  proof (cases n)
    case 0
    with Suc.prems show ?thesis by simp
  next
    case (Suc n')
    have "inside A z" using Suc.prems(2) Suc by (auto dest: spec [of _ 0])
    moreover have "\<forall>k < n'. inside A ((update A cx cy ^^ k) (update A cx cy z))"
      using Suc.prems(2) Suc by (auto simp: funpow_swap1 dest: spec [of _ "Suc _"])
    moreover have "\<not> inside A ((update A cx cy ^^ n') (update A cx cy z))"
      using Suc.prems(3) Suc by (simp add: funpow_swap1)
    moreover have "n' < m" using Suc.prems(1) Suc by simp
    ultimately show ?thesis using Suc.IH [of n' "update A cx cy z"] Suc by simp
  qed
qed

lemma writes_le: "writes A size' iterations p \<le> nat (sint iterations)"
  by (simp add: writes_def steps_le)

lemma writes_pos:
  "0 < sint iterations \<Longrightarrow> inside A (flit A 0, flit A 0) \<Longrightarrow> 0 < writes A size' iterations p"
  by (simp add: writes_def steps_pos)

lemma loop_n_unfold:
  "loop_n A iterations cx cy index n z0 z1 s =
     (if n <s iterations \<and> inside A (z0, z1) then
        (case store index n s of
           Inl e \<Rightarrow> Inl e
         | Inr s' \<Rightarrow> loop_n A iterations cx cy index (n + 1)
                      (fst (update A cx cy (z0, z1))) (snd (update A cx cy (z0, z1))) s')
      else Inr (z0, z1, s))"
  by (subst loop_n.simps) (simp add: inside_def update_def Let_def split: sum.splits)

lemma loop_n_char:
  assumes "0 \<le> sint index" "nat (sint index) < length (col s)"
  shows "nat (sint iterations - sint n) = m \<Longrightarrow>
     loop_n A iterations cx cy index n z0 z1 s =
       Inr (fst ((update A cx cy ^^ steps A cx cy m (z0, z1)) (z0, z1)),
            snd ((update A cx cy ^^ steps A cx cy m (z0, z1)) (z0, z1)),
            s\<lparr>col := (if steps A cx cy m (z0, z1) = 0 then col s
                      else (col s)[nat (sint index) := n + of_nat (steps A cx cy m (z0, z1) - 1)]),
              stores := stores s @ replicate (steps A cx cy m (z0, z1)) (sint index)\<rparr>)"
  using assms
proof (induction m arbitrary: n z0 z1 s)
  case 0
  then have "\<not> n <s iterations" by (simp add: word_sless_alt)
  then show ?case by (subst loop_n_unfold) simp
next
  case (Suc m)
  then have lt: "n <s iterations" by (simp add: word_sless_alt)
  have m: "nat (sint iterations - sint (n + 1)) = m"
    using Suc.prems(1) sint_succ [OF lt] by simp
  show ?case
  proof (cases "inside A (z0, z1)")
    case False
    with lt show ?thesis by (subst loop_n_unfold) simp
  next
    case True
    let ?s1 = "s\<lparr>col := (col s)[nat (sint index) := n], stores := stores s @ [sint index]\<rparr>"
    have st: "store index n s = Inr ?s1"
      using Suc.prems by (simp add: store_def)
    obtain u0 u1 where u: "update A cx cy (z0, z1) = (u0, u1)" by (cases "update A cx cy (z0, z1)")
    have ih: "loop_n A iterations cx cy index (n + 1) u0 u1 ?s1 = 
       Inr (fst ((update A cx cy ^^ steps A cx cy m (u0, u1)) (u0, u1)),
            snd ((update A cx cy ^^ steps A cx cy m (u0, u1)) (u0, u1)),
            ?s1\<lparr>col := (if steps A cx cy m (u0, u1) = 0 then col ?s1
                      else (col ?s1)[nat (sint index) := n + 1 + of_nat (steps A cx cy m (u0, u1) - 1)]),
              stores := stores ?s1 @ replicate (steps A cx cy m (u0, u1)) (sint index)\<rparr>)"
      using Suc.prems by (intro Suc.IH [OF m]) simp_all
    show ?thesis
      apply (subst loop_n_unfold)
      using lt True
      apply (simp add: st u ih funpow_swap1 replicate_append_same)
      done
  qed
qed

lemma cell_char:
  assumes "0 \<le> sint (i * size' + j)" "nat (sint (i * size' + j)) < length (col s)"
  shows "cell A size' iterations i cy j s =
     Inr (fst (orbit A (cx_of A size' j) cy
                 (steps A (cx_of A size' j) cy (nat (sint iterations)) (flit A 0, flit A 0))),
          snd (orbit A (cx_of A size' j) cy
                 (steps A (cx_of A size' j) cy (nat (sint iterations)) (flit A 0, flit A 0))),
          s\<lparr>col := (if steps A (cx_of A size' j) cy (nat (sint iterations)) (flit A 0, flit A 0) = 0
                     then col s
                     else (col s)[nat (sint (i * size' + j)) :=
                       of_nat (steps A (cx_of A size' j) cy (nat (sint iterations))
                                 (flit A 0, flit A 0) - 1)]),
             stores := stores s @
               replicate (steps A (cx_of A size' j) cy (nat (sint iterations)) (flit A 0, flit A 0))
                 (sint (i * size' + j))\<rparr>)"
  using loop_n_char [OF assms, of iterations 0 "nat (sint iterations)" A "cx_of A size' j" cy
      "flit A 0" "flit A 0"]
  by (simp add: cell_def orbit_def)

subsection \<open>The grid loops\<close>

lemma loop_j_char:
  assumes N: "N \<le> 46340" "size' = of_nat N" and ii: "ii < N" and len: "N * N \<le> length buf"
  shows "N - jj = k \<Longrightarrow> jj \<le> N \<Longrightarrow> filled A size' iterations buf (ii * N + jj) s \<Longrightarrow>
     \<exists>s'. loop_j A size' iterations (of_nat ii) (cy_of A size' (of_nat ii)) (of_nat jj) s = Inr s'
        \<and> filled A size' iterations buf (ii * N + N) s'
        \<and> rows s' = rows s \<and> cells s' = cells s + k"
proof (induction k arbitrary: jj s)
  case 0
  then have jj: "jj = N" by simp
  have sN: "sint size' = int N" using N by (simp add: sint_of_nat32)
  have "\<not> (of_nat jj :: int32) <s size'"
    using N jj by (simp add: word_sless_alt)
  then show ?case using 0 jj by (subst loop_j.simps) simp
next
  case (Suc k)
  then have jj: "jj < N" by simp
  have sN: "sint size' = int N" using N by (simp add: sint_of_nat32)
  have sj: "sint (of_nat jj :: int32) = int jj" using N jj by (simp add: sint_of_nat32)
  have lt: "(of_nat jj :: int32) <s size'"
    using jj by (simp add: word_sless_alt sN sj)
  let ?P = "ii * N + jj"
  have "?P < N * N"
  proof -
    have "ii * N + jj < ii * N + N" using jj by simp
    also have "\<dots> = Suc ii * N" by simp
    also have "\<dots> \<le> N * N" using ii by (metis Suc_leI mult_le_mono1)
    finally show ?thesis .
  qed
  moreover have "N * N \<le> 46340 * 46340" using N(1) by (intro mult_le_mono)
  ultimately have P31: "?P < 2 ^ 31" by simp
  have idx: "(of_nat ii :: int32) * size' + of_nat jj = of_nat ?P"
    using N by simp
  have sidx: "sint ((of_nat ii :: int32) * size' + of_nat jj) = int ?P"
    unfolding idx using P31 by (rule sint_of_nat32)
  have Plen: "?P < length buf" using \<open>?P < N * N\<close> len by simp
  let ?K = "writes A size' iterations ?P"
  have K: "steps A (cx_of A size' (of_nat jj)) (cy_of A size' (of_nat ii))
             (nat (sint iterations)) (flit A 0, flit A 0) = ?K"
    using jj by (simp add: writes_def sN)
  let ?s0 = "s\<lparr>cells := Suc (cells s)\<rparr>"
  let ?s1 = "?s0\<lparr>col := (if ?K = 0 then col ?s0 else (col ?s0)[?P := of_nat (?K - 1)]),
                 stores := stores ?s0 @ replicate ?K (int ?P)\<rparr>"
  from Suc.prems(3) have f: "filled A size' iterations buf ?P s" .
  have b1: "0 \<le> sint ((of_nat ii :: int32) * size' + of_nat jj)"
    by (simp only: sidx of_nat_0_le_iff)
  have b2: "nat (sint ((of_nat ii :: int32) * size' + of_nat jj)) < length (col ?s0)"
    using Plen f by (simp only: sidx nat_int) (simp add: filled_def)
  note cc = cell_char [OF b1 b2, of A iterations "cy_of A size' (of_nat ii)",
      unfolded K sidx nat_int]
  have c: "\<exists>z0 z1. cell A size' iterations (of_nat ii) (cy_of A size' (of_nat ii)) (of_nat jj) ?s0
            = Inr (z0, z1, ?s1)"
    by (intro exI) (rule cc)
  have f1: "filled A size' iterations buf (ii * N + Suc jj) ?s1"
    using f Plen by (auto simp: filled_def nth_list_update less_Suc_eq)
  have "\<exists>s'. loop_j A size' iterations (of_nat ii) (cy_of A size' (of_nat ii)) (of_nat (Suc jj)) ?s1
             = Inr s'
        \<and> filled A size' iterations buf (ii * N + N) s'
        \<and> rows s' = rows ?s1 \<and> cells s' = cells ?s1 + k"
    using Suc.prems jj by (intro Suc.IH [OF _ _ f1]) simp_all
  then show ?case
    using c lt by (subst loop_j.simps) (auto simp: add.commute)
qed

lemma loop_i_char:
  assumes N: "N \<le> 46340" "size' = of_nat N" and len: "N * N \<le> length buf"
  shows "N - ii = k \<Longrightarrow> ii \<le> N \<Longrightarrow> filled A size' iterations buf (ii * N) s \<Longrightarrow>
     \<exists>s'. loop_i A size' iterations (of_nat ii) s = Inr s'
        \<and> filled A size' iterations buf (N * N) s'
        \<and> rows s' = rows s + k \<and> cells s' = cells s + k * N"
proof (induction k arbitrary: ii s)
  case 0
  then have ii: "ii = N" by simp
  have "\<not> (of_nat ii :: int32) <s size'"
    using N ii by (simp add: word_sless_alt)
  then show ?case using 0 ii by (subst loop_i.simps) simp
next
  case (Suc k)
  then have ii: "ii < N" by simp
  have sN: "sint size' = int N" using N by (simp add: sint_of_nat32)
  have si: "sint (of_nat ii :: int32) = int ii" using N ii by (simp add: sint_of_nat32)
  have lt: "(of_nat ii :: int32) <s size'"
    using ii by (simp add: word_sless_alt sN si)
  let ?s0 = "s\<lparr>rows := Suc (rows s)\<rparr>"
  have f0: "filled A size' iterations buf (ii * N + 0) ?s0"
    using Suc.prems(3) by (simp add: filled_def)
  obtain s1 where s1: "loop_j A size' iterations (of_nat ii) (cy_of A size' (of_nat ii)) 0 ?s0
                         = Inr s1"
    and f1: "filled A size' iterations buf (ii * N + N) s1"
    and r1: "rows s1 = rows ?s0" and c1: "cells s1 = cells ?s0 + N"
    using loop_j_char [OF N ii len _ _ f0, of N] by auto
  have f1': "filled A size' iterations buf (Suc ii * N) s1"
    using f1 by (simp add: add.commute)
  have "\<exists>s'. loop_i A size' iterations (of_nat (Suc ii)) s1 = Inr s'
        \<and> filled A size' iterations buf (N * N) s'
        \<and> rows s' = rows s1 + k \<and> cells s' = cells s1 + k * N"
    using Suc.prems ii by (intro Suc.IH [OF _ _ f1']) simp_all
  then show ?case
    using s1 lt r1 c1 by (subst loop_i.simps) (auto simp: add.commute)
qed

lemma mandelbrot_char:
  assumes "0 \<le> sint size'" "sint size' \<le> 46340"
    and "nat (sint size') * nat (sint size') \<le> length buf"
  shows "\<exists>s'. mandelbrot A size' iterations buf = Inr s'
        \<and> filled A size' iterations buf (nat (sint size') * nat (sint size')) s'
        \<and> rows s' = nat (sint size')
        \<and> cells s' = nat (sint size') * nat (sint size')"
proof -
  let ?N = "nat (sint size')"
  have N: "?N \<le> 46340" using assms by simp
  have sz: "size' = of_nat ?N" using assms(1) by simp
  let ?s = "\<lparr>col = buf, stores = [], rows = 0, cells = 0\<rparr>"
  have f: "filled A size' iterations buf (0 * ?N) ?s" by (simp add: filled_def)
  show ?thesis
    using loop_i_char [OF N sz assms(3) _ _ f, of ?N] by (simp add: mandelbrot_def)
qed

lemma mandelbrot_run:
  assumes "0 \<le> sint size'" "sint size' \<le> 46340"
    and "nat (sint size') * nat (sint size') \<le> length buf"
  shows "\<exists>s'. mandelbrot A size' iterations buf = Inr s'
    \<and> length (col s') = length buf
    \<and> (\<forall>p < nat (sint size') * nat (sint size').
           col s' ! p = (if 0 < writes A size' iterations p
                         then of_nat (writes A size' iterations p - 1) else buf ! p))
    \<and> stores s' = concat (map (\<lambda>p. replicate (writes A size' iterations p) (int p))
                         [0 ..< nat (sint size') * nat (sint size')])
    \<and> rows s' = nat (sint size')
    \<and> cells s' = nat (sint size') * nat (sint size')"
proof -
  obtain s' where "mandelbrot A size' iterations buf = Inr s'"
    and f: "filled A size' iterations buf (nat (sint size') * nat (sint size')) s'"
    and "rows s' = nat (sint size')"
    and "cells s' = nat (sint size') * nat (sint size')"
    using mandelbrot_char [OF assms] by blast
  moreover have "length (col s') = length buf" using f by (simp add: filled_def)
  moreover have "\<forall>p < nat (sint size') * nat (sint size').
     col s' ! p = (if 0 < writes A size' iterations p
                         then of_nat (writes A size' iterations p - 1) else buf ! p)"
    using f assms(3) by (simp add: filled_def)
  moreover have "stores s' = concat (map (\<lambda>p. replicate (writes A size' iterations p) (int p))
                         [0 ..< nat (sint size') * nat (sint size')])"
    using f by (simp add: filled_def)
  ultimately show ?thesis by blast
qed

lemma run_2_3:
  "mandelbrot rat_arith 2 3 [7, 7, 7, 7] = Inr \<lparr>col = [2, 2, 2, 2], stores = [0,0,0,1,1,1,2,2,2,3,3,3], rows = 2, cells = 4\<rparr>"
  by (simp add: mandelbrot_def loop_i.simps loop_j.simps loop_n.simps cell_def store_def
      cx_of_def cy_of_def rat_arith_def word_sless_alt)

text \<open>The cell \<open>(i, j)\<close> of the grid, its linear position and its index.\<close>

lemma position_of_cell:
  fixes i j size' :: int32
  assumes "0 \<le> sint i" "sint i < sint size'" "0 \<le> sint j" "sint j < sint size'"
  shows "nat (sint i * sint size' + sint j) < nat (sint size') * nat (sint size')"
    and "writes A size' iterations (nat (sint i * sint size' + sint j)) =
           steps A (cx_of A size' j) (cy_of A size' i) (nat (sint iterations))
             (flit A 0, flit A 0)"
proof -
  let ?N = "nat (sint size')" and ?a = "nat (sint i)" and ?b = "nat (sint j)"
  have a: "?a < ?N" and b: "?b < ?N" using assms by simp_all
  have "sint i * sint size' + sint j = int ?a * int ?N + int ?b" using assms by simp
  also have "\<dots> = int (?a * ?N + ?b)" by (simp only: of_nat_add of_nat_mult)
  finally have p: "nat (sint i * sint size' + sint j) = ?a * ?N + ?b" by (simp only: nat_int)
  have "?a * ?N + ?b < ?a * ?N + ?N" using b by simp
  also have "\<dots> = Suc ?a * ?N" by simp
  also have "\<dots> \<le> ?N * ?N" using a by (metis Suc_leI mult_le_mono1)
  finally show "nat (sint i * sint size' + sint j) < ?N * ?N" unfolding p .
  have i: "(of_nat ?a :: int32) = i" and j: "(of_nat ?b :: int32) = j"
    using assms by simp_all
  have "(?a * ?N + ?b) div ?N = ?a" "(?a * ?N + ?b) mod ?N = ?b" using b by simp_all
  then show "writes A size' iterations (nat (sint i * sint size' + sint j)) =
           steps A (cx_of A size' j) (cy_of A size' i) (nat (sint iterations))
             (flit A 0, flit A 0)"
    unfolding p writes_def by (simp only: i j)
qed

lemma index_of_cell:
  fixes i j size' :: int32
  assumes "sint size' \<le> 46340"
    and "0 \<le> sint i" "sint i < sint size'" "0 \<le> sint j" "sint j < sint size'"
  shows "sint (i * size' + j) = sint i * sint size' + sint j"
proof -
  let ?N = "nat (sint size')" and ?a = "nat (sint i)" and ?b = "nat (sint j)"
  have N: "?N \<le> 46340" using assms(1) by simp
  have sz: "size' = of_nat ?N" using assms(2,3) by simp
  have a: "?a < ?N" and b: "?b < ?N" using assms by simp_all
  have i: "(of_nat ?a :: int32) = i" and j: "(of_nat ?b :: int32) = j"
    using assms by simp_all
  have "sint ((of_nat ?a :: int32) * size' + of_nat ?b) = int (?a * ?N + ?b)"
    by (rule sint_index [OF N sz a b])
  also have "\<dots> = int ?a * int ?N + int ?b" by (simp only: of_nat_add of_nat_mult)
  also have "\<dots> = sint i * sint size' + sint j" using assms by simp
  finally show ?thesis by (simp only: i j)
qed

subsection \<open>Stores outside the buffer\<close>

lemma store_length: "store index n s = Inr s' \<Longrightarrow> length (col s') = length (col s)"
  by (auto simp: store_def split: if_splits)

lemma loop_n_length:
  "nat (sint iterations - sint n) = m \<Longrightarrow>
   loop_n A iterations cx cy index n z0 z1 s = Inr (a, b, s') \<Longrightarrow>
   length (col s') = length (col s)"
proof (induction m arbitrary: n z0 z1 s)
  case 0
  then have "\<not> n <s iterations" by (simp add: word_sless_alt)
  with 0 show ?case by (subst (asm) loop_n_unfold) simp
next
  case (Suc m)
  then have lt: "n <s iterations" by (simp add: word_sless_alt)
  have m: "nat (sint iterations - sint (n + 1)) = m"
    using Suc.prems(1) sint_succ [OF lt] by simp
  show ?case
  proof (cases "inside A (z0, z1)")
    case False
    with Suc.prems(2) show ?thesis by (subst (asm) loop_n_unfold) simp
  next
    case True
    from Suc.prems(2) lt True obtain s1 where s1: "store index n s = Inr s1"
      and r: "loop_n A iterations cx cy index (n + 1)
                (fst (update A cx cy (z0, z1))) (snd (update A cx cy (z0, z1))) s1 = Inr (a, b, s')"
      by (subst (asm) loop_n_unfold) (auto split: sum.splits)
    from Suc.IH [OF m r] store_length [OF s1] show ?thesis by simp
  qed
qed

lemma cell_length:
  "cell A size' iterations i cy j s = Inr (a, b, s') \<Longrightarrow> length (col s') = length (col s)"
  unfolding cell_def Let_def by (rule loop_n_length [OF refl])

lemma cell_oob:
  assumes "0 < sint iterations" "inside A (flit A 0, flit A 0)"
    and "\<not> (0 \<le> sint (i * size' + j) \<and> nat (sint (i * size' + j)) < length (col s))"
  shows "cell A size' iterations i cy j s = Inl OutOfBounds"
proof -
  have "(0 :: int32) <s iterations" using assms(1) by (simp add: word_sless_alt)
  moreover have "store (i * size' + j) 0 s = Inl OutOfBounds"
    using assms(3) by (simp add: store_def)
  ultimately show ?thesis
    using assms(2) unfolding cell_def Let_def by (subst loop_n_unfold) simp
qed

lemma loop_j_inb:
  assumes "0 < sint iterations" "inside A (flit A 0, flit A 0)"
    and N: "size' = of_nat N" "N < 2 ^ 31"
  shows "N - jj = k \<Longrightarrow> jj \<le> N \<Longrightarrow>
     loop_j A size' iterations i cy (of_nat jj) s = Inr s' \<Longrightarrow>
     length (col s') = length (col s) \<and>
     (\<forall>j'. jj \<le> j' \<and> j' < N \<longrightarrow>
        0 \<le> sint (i * size' + of_nat j') \<and> nat (sint (i * size' + of_nat j')) < length (col s))"
proof (induction k arbitrary: jj s)
  case 0
  then have jj: "jj = N" by simp
  have "\<not> (of_nat jj :: int32) <s size'"
    using N jj by (simp add: word_sless_alt)
  with 0 show ?case by (subst (asm) loop_j.simps) auto
next
  case (Suc k)
  then have jj: "jj < N" by simp
  have sN: "sint size' = int N" using N by (simp add: sint_of_nat32)
  have sj: "sint (of_nat jj :: int32) = int jj" using N jj by (simp add: sint_of_nat32)
  have lt: "(of_nat jj :: int32) <s size'"
    using jj by (simp add: word_sless_alt sN sj)
  let ?s0 = "s\<lparr>cells := Suc (cells s)\<rparr>"
  from Suc.prems(3) lt obtain a b s1
    where c: "cell A size' iterations i cy (of_nat jj) ?s0 = Inr (a, b, s1)"
      and r: "loop_j A size' iterations i cy (of_nat (Suc jj)) s1 = Inr s'"
    by (subst (asm) loop_j.simps) (auto split: sum.splits simp: add.commute)
  have l1: "length (col s1) = length (col s)" using cell_length [OF c] by simp
  have here: "0 \<le> sint (i * size' + of_nat jj) \<and>
      nat (sint (i * size' + of_nat jj)) < length (col s)"
    using cell_oob [OF assms(1,2), of i size' "of_nat jj" ?s0 cy] c by auto
  have ih: "length (col s') = length (col s1) \<and>
     (\<forall>j'. Suc jj \<le> j' \<and> j' < N \<longrightarrow>
        0 \<le> sint (i * size' + of_nat j') \<and> nat (sint (i * size' + of_nat j')) < length (col s1))"
    using Suc.prems jj by (intro Suc.IH [OF _ _ r]) simp_all
  show ?case
  proof (rule conjI)
    show "length (col s') = length (col s)" using ih l1 by simp
  next
    have "0 \<le> sint (i * size' + of_nat j') \<and>
      nat (sint (i * size' + of_nat j')) < length (col s)"
      if j': "jj \<le> j' \<and> j' < N" for j'
    proof (cases "j' = jj")
      case True
      with here show ?thesis by simp
    next
      case False
      with j' have "Suc jj \<le> j' \<and> j' < N" by simp
      with ih l1 show ?thesis by simp
    qed
    then show "\<forall>j'. jj \<le> j' \<and> j' < N \<longrightarrow>
        0 \<le> sint (i * size' + of_nat j') \<and> nat (sint (i * size' + of_nat j')) < length (col s)"
      by blast
  qed
qed

lemma loop_i_inb:
  assumes "0 < sint iterations" "inside A (flit A 0, flit A 0)"
    and N: "size' = of_nat N" "N < 2 ^ 31"
  shows "N - ii = k \<Longrightarrow> ii \<le> N \<Longrightarrow>
     loop_i A size' iterations (of_nat ii) s = Inr s' \<Longrightarrow>
     length (col s') = length (col s) \<and>
     (\<forall>i' j'. ii \<le> i' \<and> i' < N \<and> j' < N \<longrightarrow>
        0 \<le> sint ((of_nat i' :: int32) * size' + of_nat j') \<and>
        nat (sint ((of_nat i' :: int32) * size' + of_nat j')) < length (col s))"
proof (induction k arbitrary: ii s)
  case 0
  then have ii: "ii = N" by simp
  have "\<not> (of_nat ii :: int32) <s size'"
    using N ii by (simp add: word_sless_alt)
  with 0 show ?case by (subst (asm) loop_i.simps) auto
next
  case (Suc k)
  then have ii: "ii < N" by simp
  have sN: "sint size' = int N" using N by (simp add: sint_of_nat32)
  have si: "sint (of_nat ii :: int32) = int ii" using N ii by (simp add: sint_of_nat32)
  have lt: "(of_nat ii :: int32) <s size'"
    using ii by (simp add: word_sless_alt sN si)
  let ?s0 = "s\<lparr>rows := Suc (rows s)\<rparr>"
  from Suc.prems(3) lt obtain s1
    where c: "loop_j A size' iterations (of_nat ii) (cy_of A size' (of_nat ii)) (of_nat 0) ?s0
                = Inr s1"
      and r: "loop_i A size' iterations (of_nat (Suc ii)) s1 = Inr s'"
    by (subst (asm) loop_i.simps) (auto split: sum.splits simp: add.commute)
  from loop_j_inb [OF assms, of 0 N "of_nat ii" "cy_of A size' (of_nat ii)" ?s0 s1, OF _ _ c]
  have l1: "length (col s1) = length (col s)"
    and here: "\<forall>j'. j' < N \<longrightarrow>
        0 \<le> sint ((of_nat ii :: int32) * size' + of_nat j') \<and>
        nat (sint ((of_nat ii :: int32) * size' + of_nat j')) < length (col s)"
    by simp_all
  have ih: "length (col s') = length (col s1) \<and>
     (\<forall>i' j'. Suc ii \<le> i' \<and> i' < N \<and> j' < N \<longrightarrow>
        0 \<le> sint ((of_nat i' :: int32) * size' + of_nat j') \<and>
        nat (sint ((of_nat i' :: int32) * size' + of_nat j')) < length (col s1))"
    using Suc.prems ii by (intro Suc.IH [OF _ _ r]) simp_all
  show ?case
  proof (rule conjI)
    show "length (col s') = length (col s)" using ih l1 by simp
  next
    have "0 \<le> sint ((of_nat i' :: int32) * size' + of_nat j') \<and>
      nat (sint ((of_nat i' :: int32) * size' + of_nat j')) < length (col s)"
      if i': "ii \<le> i' \<and> i' < N \<and> j' < N" for i' j'
    proof (cases "i' = ii")
      case True
      with here i' show ?thesis by simp
    next
      case False
      with i' have "Suc ii \<le> i' \<and> i' < N \<and> j' < N" by simp
      with ih l1 show ?thesis by simp
    qed
    then show "\<forall>i' j'. ii \<le> i' \<and> i' < N \<and> j' < N \<longrightarrow>
        0 \<le> sint ((of_nat i' :: int32) * size' + of_nat j') \<and>
        nat (sint ((of_nat i' :: int32) * size' + of_nat j')) < length (col s)"
      by blast
  qed
qed

lemma mandelbrot_oob:
  assumes "0 < sint iterations" "inside A (flit A 0, flit A 0)"
    and "ii < nat (sint size')" "jj < nat (sint size')"
    and "\<not> (0 \<le> sint ((of_nat ii :: int32) * size' + of_nat jj) \<and>
            nat (sint ((of_nat ii :: int32) * size' + of_nat jj)) < length buf)"
  shows "mandelbrot A size' iterations buf = Inl OutOfBounds"
proof (cases "mandelbrot A size' iterations buf")
  case (Inl e)
  then show ?thesis by (cases e) simp
next
  case (Inr s')
  let ?N = "nat (sint size')"
  have sz: "size' = of_nat ?N" using assms(3) by simp
  have N: "?N < 2 ^ 31" using sint_lt [of size'] by simp
  have r: "loop_i A size' iterations (of_nat 0) \<lparr>col = buf, stores = [], rows = 0, cells = 0\<rparr>
             = Inr s'"
    using Inr by (simp add: mandelbrot_def)
  from loop_i_inb [OF assms(1,2) sz N, of 0 ?N _ s', OF _ _ r] assms(3,4,5)
  show ?thesis by auto
qed

text \<open>Beyond \<open>size = 46340\<close> the product \<open>size * size\<close> exceeds \<open>2 ^ 31 - 1\<close>. The
  index of the cell at linear position \<open>2 ^ 31\<close> then wraps around to \<open>- 2 ^ 31\<close>, so
  the call stores outside the buffer, however long the buffer is.\<close>

lemma mandelbrot_overflow:
  assumes "46340 < sint size'" "0 < sint iterations" "inside A (flit A 0, flit A 0)"
  shows "mandelbrot A size' iterations buf = Inl OutOfBounds"
proof -
  let ?N = "nat (sint size')"
  let ?ii = "2 ^ 31 div ?N" and ?jj = "2 ^ 31 mod ?N"
  have N: "46341 \<le> ?N" using assms(1) by simp
  have sz: "size' = of_nat ?N" using assms(1) by simp
  have "(46341::nat) * 46341 \<le> ?N * ?N" using N by (intro mult_le_mono)
  then have big: "2 ^ 31 < ?N * ?N" by simp
  have jj: "?jj < ?N" using N by simp
  have ii: "?ii < ?N" using big N by (simp add: less_mult_imp_div_less)
  have "(of_nat ?ii :: int32) * size' + of_nat ?jj = of_nat (?ii * ?N + ?jj)"
    by (subst (2) sz) (simp only: of_nat_add of_nat_mult)
  also have "?ii * ?N + ?jj = 2 ^ 31" by simp
  finally have "sint ((of_nat ?ii :: int32) * size' + of_nat ?jj) = - (2 ^ 31)"
    by simp
  then have "\<not> (0 \<le> sint ((of_nat ?ii :: int32) * size' + of_nat ?jj) \<and>
            nat (sint ((of_nat ?ii :: int32) * size' + of_nat ?jj)) < length buf)"
    by simp
  from mandelbrot_oob [OF assms(2,3) ii jj this] show ?thesis .
qed

subsection \<open>Calls without work\<close>

lemma cell_none:
  "\<not> 0 < sint iterations \<Longrightarrow>
     cell A size' iterations i cy j s = Inr (flit A 0, flit A 0, s)"
  unfolding cell_def Let_def by (subst loop_n_unfold) (simp add: word_sless_alt)

lemma loop_j_none:
  assumes "\<not> 0 < sint iterations" and N: "size' = of_nat N" "N < 2 ^ 31"
  shows "N - jj = k \<Longrightarrow> jj \<le> N \<Longrightarrow>
     loop_j A size' iterations i cy (of_nat jj) s = Inr (s\<lparr>cells := cells s + k\<rparr>)"
proof (induction k arbitrary: jj s)
  case 0
  then have jj: "jj = N" by simp
  have "\<not> (of_nat jj :: int32) <s size'"
    using N jj by (simp add: word_sless_alt)
  then show ?case by (subst loop_j.simps) simp
next
  case (Suc k)
  then have jj: "jj < N" by simp
  have sN: "sint size' = int N" using N by (simp add: sint_of_nat32)
  have sj: "sint (of_nat jj :: int32) = int jj" using N jj by (simp add: sint_of_nat32)
  have lt: "(of_nat jj :: int32) <s size'"
    using jj by (simp add: word_sless_alt sN sj)
  have "loop_j A size' iterations i cy (of_nat (Suc jj)) (s\<lparr>cells := Suc (cells s)\<rparr>)
          = Inr (s\<lparr>cells := Suc (cells s)\<rparr>\<lparr>cells := cells (s\<lparr>cells := Suc (cells s)\<rparr>) + k\<rparr>)"
    using Suc.prems jj by (intro Suc.IH) simp_all
  then show ?case
    using lt by (subst loop_j.simps) (simp add: cell_none [OF assms(1)] add.commute)
qed

lemma loop_i_none:
  assumes "\<not> 0 < sint iterations" and N: "size' = of_nat N" "N < 2 ^ 31"
  shows "N - ii = k \<Longrightarrow> ii \<le> N \<Longrightarrow>
     loop_i A size' iterations (of_nat ii) s =
       Inr (s\<lparr>rows := rows s + k, cells := cells s + k * N\<rparr>)"
proof (induction k arbitrary: ii s)
  case 0
  then have ii: "ii = N" by simp
  have "\<not> (of_nat ii :: int32) <s size'"
    using N ii by (simp add: word_sless_alt)
  then show ?case by (subst loop_i.simps) simp
next
  case (Suc k)
  then have ii: "ii < N" by simp
  have sN: "sint size' = int N" using N by (simp add: sint_of_nat32)
  have si: "sint (of_nat ii :: int32) = int ii" using N ii by (simp add: sint_of_nat32)
  have lt: "(of_nat ii :: int32) <s size'"
    using ii by (simp add: word_sless_alt sN si)
  let ?s0 = "s\<lparr>rows := Suc (rows s)\<rparr>"
  let ?s1 = "?s0\<lparr>cells := cells ?s0 + N\<rparr>"
  have j: "loop_j A size' iterations (of_nat ii) (cy_of A size' (of_nat ii)) 0 ?s0 = Inr ?s1"
    using loop_j_none [OF assms, where jj = 0 and k = N and s = ?s0] by simp
  have "loop_i A size' iterations (of_nat (Suc ii)) ?s1
          = Inr (?s1\<lparr>rows := rows ?s1 + k, cells := cells ?s1 + k * N\<rparr>)"
    using Suc.prems ii by (intro Suc.IH) simp_all
  then show ?case
    using lt by (subst loop_i.simps) (simp add: j add.commute add.left_commute)
qed

lemma mandelbrot_no_size:
  "\<not> 0 < sint size' \<Longrightarrow>
     mandelbrot A size' iterations buf = Inr \<lparr>col = buf, stores = [], rows = 0, cells = 0\<rparr>"
  unfolding mandelbrot_def by (subst loop_i.simps) (simp add: word_sless_alt)

lemma mandelbrot_no_iterations:
  assumes "0 < sint size'" "\<not> 0 < sint iterations"
  shows "mandelbrot A size' iterations buf =
     Inr \<lparr>col = buf, stores = [], rows = nat (sint size'),
          cells = nat (sint size') * nat (sint size')\<rparr>"
proof -
  let ?N = "nat (sint size')"
  have sz: "size' = of_nat ?N" using assms(1) by simp
  have N: "?N < 2 ^ 31" using sint_lt [of size'] by simp
  show ?thesis
    using loop_i_none [OF assms(2) sz N, where ii = 0 and k = ?N and A = A
        and s = "\<lparr>col = buf, stores = [], rows = 0, cells = 0\<rparr>"]
    by (simp add: mandelbrot_def)
qed

subsection \<open>The log of stores\<close>

lemma count_list_replicate: "count_list (replicate n x) y = (if x = y then n else 0)"
  by (induction n) auto

lemma count_stores:
  "count_list (concat (map (\<lambda>q. replicate (f q) (int q)) [0 ..< P])) (int p) =
     (if p < P then f p else 0)"
  by (induction P) (auto simp: count_list_replicate)

lemma set_stores:
  "set (concat (map (\<lambda>q. replicate (f q) (int q)) [0 ..< P])) = int ` {q. q < P \<and> 0 < f q}"
  by (induction P) (auto simp: less_Suc_eq)

subsection \<open>The loop of the specification\<close>

lemma spec_loop_unfold:
  assumes "comparable A (z0, z1)"
  shows "spec_loop A iterations cx cy n z0 z1 result =
     (if n <s iterations \<and> inside A (z0, z1) then
        spec_loop A iterations cx cy (n + 1)
          (fst (update A cx cy (z0, z1))) (snd (update A cx cy (z0, z1))) n
      else (z0, z1, result))"
  using assms
  by (subst spec_loop.simps) (simp add: comparable_def inside_def update_def Let_def)

lemma spec_loop_char:
  "nat (sint iterations - sint n) = m \<Longrightarrow>
   \<forall>k \<le> steps A cx cy m (z0, z1). comparable A ((update A cx cy ^^ k) (z0, z1)) \<Longrightarrow>
   spec_loop A iterations cx cy n z0 z1 result =
     (fst ((update A cx cy ^^ steps A cx cy m (z0, z1)) (z0, z1)),
      snd ((update A cx cy ^^ steps A cx cy m (z0, z1)) (z0, z1)),
      if steps A cx cy m (z0, z1) = 0 then result
      else n + of_nat (steps A cx cy m (z0, z1) - 1))"
proof (induction m arbitrary: n z0 z1 result)
  case 0
  then have "\<not> n <s iterations" by (simp add: word_sless_alt)
  moreover have "comparable A (z0, z1)" using 0 by simp
  ultimately show ?case by (subst spec_loop_unfold) simp_all
next
  case (Suc m)
  then have lt: "n <s iterations" by (simp add: word_sless_alt)
  have m: "nat (sint iterations - sint (n + 1)) = m"
    using Suc.prems(1) sint_succ [OF lt] by simp
  have c0: "comparable A (z0, z1)" using Suc.prems(2) by (auto dest: spec [of _ 0])
  show ?case
  proof (cases "inside A (z0, z1)")
    case False
    with lt c0 show ?thesis by (subst spec_loop_unfold) simp_all
  next
    case True
    obtain u0 u1 where u: "update A cx cy (z0, z1) = (u0, u1)"
      by (cases "update A cx cy (z0, z1)")
    have "\<forall>k \<le> steps A cx cy m (u0, u1). comparable A ((update A cx cy ^^ k) (u0, u1))"
    proof (intro allI impI)
      fix k
      assume "k \<le> steps A cx cy m (u0, u1)"
      then have "Suc k \<le> steps A cx cy (Suc m) (z0, z1)" using True u by simp
      with Suc.prems(2) have "comparable A ((update A cx cy ^^ Suc k) (z0, z1))" by blast
      then show "comparable A ((update A cx cy ^^ k) (u0, u1))"
        by (simp add: funpow_swap1 u)
    qed
    from Suc.IH [OF m this, of n]
    show ?thesis
      using lt True c0 by (subst spec_loop_unfold) (simp_all add: u funpow_swap1)
  qed
qed

section \<open>The claims\<close>

subsection \<open>C1\<close>

text \<open>
  Claim C1, amended. For every \<open>size\<close> with \<open>0 < size \<le> 46340\<close>, every
  \<open>iterations > 0\<close> and every cell \<open>(i, j)\<close> of the grid, on a buffer of at least
  \<open>size * size\<close> elements the call returns, and the element at \<open>i * size + j\<close> holds the
  \<open>result\<close> of the specification's reference algorithm for that cell, which takes
  \<open>cy = -1.5 + (i / size) * 3.0\<close> and \<open>cx = -2.0 + (j / size) * 3.0\<close>, starts from
  \<open>(0, 0)\<close>, tests \<open>> 100.0\<close>, assigns \<open>z1_new\<close>, then \<open>z0\<close>, then \<open>z1\<close>, and keeps \<open>n\<close> in
  \<open>result\<close>. Moreover the body of the \<open>j\<close> loop for that cell, which assigns \<open>z0_tmp\<close>,
  then \<open>z1\<close>, then \<open>z0\<close>, run with the \<open>cy\<close> of row \<open>i\<close> on any buffer of at least
  \<open>size * size\<close> elements, leaves its loop with the \<open>(z0, z1)\<close> of the reference algorithm
  and with \<open>result\<close> stored at \<open>i * size + j\<close>. This holds for every number of iterations,
  so the two sequences of iterates agree step by step.
  Hypotheses on the arithmetic: the test of step 0 succeeds (\<open>0 * 0 + 0 * 0 \<le> 100\<close>), and
  on every iterate that the loop tests, \<open>>\<close> is the negation of \<open>\<le>\<close>.
\<close>

theorem C1_cell_refines_spec:
  fixes i j size' iterations :: int32
  assumes "0 < sint size'" "sint size' \<le> 46340" "0 < sint iterations"
    and "0 \<le> sint i" "sint i < sint size'" "0 \<le> sint j" "sint j < sint size'"
    and "inside A (flit A 0, flit A 0)"
    and "\<forall>k \<le> steps A (cx_of A size' j) (cy_of A size' i) (nat (sint iterations))
                 (flit A 0, flit A 0).
           comparable A (orbit A (cx_of A size' j) (cy_of A size' i) k)"
    and "nat (sint size') * nat (sint size') \<le> length buf"
  shows "\<exists>z0 z1 result s'.
           spec_cell A size' iterations i j = (z0, z1, result) \<and>
           mandelbrot A size' iterations buf = Inr s' \<and>
           col s' ! nat (sint i * sint size' + sint j) = result \<and>
           (\<forall>s. nat (sint size') * nat (sint size') \<le> length (col s) \<longrightarrow>
              (\<exists>s''. cell A size' iterations i (cy_of A size' i) j s = Inr (z0, z1, s'') \<and>
                 col s'' = (col s)[nat (sint i * sint size' + sint j) := result]))"
proof -
  let ?cx = "cx_of A size' j" and ?cy = "cy_of A size' i"
  let ?k = "steps A ?cx ?cy (nat (sint iterations)) (flit A 0, flit A 0)"
  let ?p = "nat (sint i * sint size' + sint j)"
  let ?M = "nat (sint size') * nat (sint size')"
  have pos: "0 < ?k" using assms(3,8) by (simp add: steps_pos)
  have sp: "spec_cell A size' iterations i j =
     (fst (orbit A ?cx ?cy ?k), snd (orbit A ?cx ?cy ?k), of_nat (?k - 1))"
    using spec_loop_char [of iterations 0 "nat (sint iterations)" A ?cx ?cy "flit A 0" "flit A 0" 0]
      assms(9) pos
    by (simp add: spec_cell_def orbit_def cx_of_def cy_of_def)
  have pM: "?p < ?M" by (rule position_of_cell(1) [OF assms(4,5,6,7)])
  have wr: "writes A size' iterations ?p = ?k"
    by (rule position_of_cell(2) [OF assms(4,5,6,7)])
  have idx: "sint (i * size' + j) = sint i * sint size' + sint j"
    by (rule index_of_cell [OF assms(2,4,5,6,7)])
  have "0 \<le> sint size'" using assms(1) by simp
  from mandelbrot_run [OF this assms(2) assms(10), of A iterations]
  obtain s' where run: "mandelbrot A size' iterations buf = Inr s'"
    and val: "\<forall>p < ?M. col s' ! p = (if 0 < writes A size' iterations p
                         then of_nat (writes A size' iterations p - 1) else buf ! p)"
    by blast
  have rec: "col s' ! ?p = of_nat (?k - 1)" using val pM pos by (simp add: wr)
  have body: "\<exists>s''. cell A size' iterations i ?cy j s =
                 Inr (fst (orbit A ?cx ?cy ?k), snd (orbit A ?cx ?cy ?k), s'') \<and>
               col s'' = (col s)[?p := of_nat (?k - 1)]"
    if len: "?M \<le> length (col s)" for s
  proof -
    have b1: "0 \<le> sint (i * size' + j)" using assms(4,6) idx
      by (simp only: idx) (simp add: assms(1) less_imp_le)
    have b2: "nat (sint (i * size' + j)) < length (col s)"
      using pM len by (simp only: idx)
    show ?thesis
      using cell_char [OF b1 b2, of A iterations ?cy] pos by (simp add: idx)
  qed
  from sp run rec body show ?thesis by blast
qed

text \<open>
  C1 on the exact arithmetic, for cell \<open>(1, 0)\<close> of a 2 by 2 grid and 3 iterations.
\<close>

theorem C1_cell_refines_spec_witness:
  "\<exists>z0 z1 result s'.
     spec_cell rat_arith 2 3 1 0 = (z0, z1, result) \<and>
     mandelbrot rat_arith 2 3 [7, 7, 7, 7] = Inr s' \<and>
     col s' ! 2 = result \<and>
     (\<forall>s. 4 \<le> length (col s) \<longrightarrow>
        (\<exists>s''. cell rat_arith 2 3 1 (cy_of rat_arith 2 1) 0 s = Inr (z0, z1, s'') \<and>
           col s'' = (col s)[2 := result]))"
proof -
  have "comparable rat_arith z" for z
    by (cases z) (auto simp: comparable_def rat_arith_def)
  moreover have "inside rat_arith (flit rat_arith 0, flit rat_arith 0)"
    by (simp add: inside_def rat_arith_def)
  ultimately show ?thesis
    using C1_cell_refines_spec [where A = rat_arith and size' = 2 and iterations = 3 and i = 1
        and j = 0 and buf = "[7, 7, 7, 7]"]
    by simp
qed

text \<open>
  The bound on \<open>size\<close> is needed. For \<open>size = 46341\<close> the product \<open>size * size\<close> is
  2147488281 and no longer fits a 32-bit int: for the cell \<open>(46340, 46340)\<close> the code's
  \<^verbatim>\<open>index = i * size + j\<close> wraps around to -2147479016, and the store
  \<^verbatim>\<open>col[index] = n\<close> falls outside a buffer of \<open>size * size\<close> elements.
  For that cell and one iteration the reference algorithm records 0, but the cell
  computation of the code and the call, on a buffer of 2147488281 nines, end in that store.
\<close>

theorem C1_counterexample:
  "snd (snd (spec_cell rat_arith 46341 1 46340 46340)) = 0 \<and>
   cell rat_arith 46341 1 46340 (cy_of rat_arith 46341 46340) 46340
     \<lparr>col = replicate 2147488281 9, stores = [], rows = 0, cells = 0\<rparr> = Inl OutOfBounds \<and>
   mandelbrot rat_arith 46341 1 (replicate 2147488281 9) = Inl OutOfBounds"
proof -
  have "snd (snd (spec_cell rat_arith 46341 1 46340 46340)) = 0"
    by (simp add: spec_cell_def spec_loop.simps word_sless_alt rat_arith_def)
  then show ?thesis
    using mandelbrot_oob [where A = rat_arith and size' = 46341 and iterations = 1
        and ii = 46340 and jj = 46340 and buf = "replicate 2147488281 9"]
      cell_oob [where A = rat_arith and size' = 46341 and iterations = 1 and i = 46340
        and j = 46340 and cy = "cy_of rat_arith 46341 46340"
        and s = "\<lparr>col = replicate 2147488281 9, stores = [], rows = 0, cells = 0\<rparr>"]
    by (simp add: inside_def rat_arith_def)
qed

subsection \<open>C2\<close>

text \<open>
  Claim C2, amended. For every \<open>size\<close> with \<open>0 < size \<le> 46340\<close> and every
  \<open>iterations > 0\<close>, on a buffer of at least \<open>size * size\<close> elements the call returns, and
  afterwards each of the first \<open>size * size\<close> elements holds a value \<open>n\<close> with
  \<open>0 \<le> n < iterations\<close>. The hypothesis on the arithmetic says that the test of step 0
  succeeds, as it does on doubles.
\<close>

theorem C2_range:
  assumes "0 < sint size'" "sint size' \<le> 46340" "0 < sint iterations"
    and "inside A (flit A 0, flit A 0)"
    and "nat (sint size') * nat (sint size') \<le> length buf"
  shows "\<exists>s'. mandelbrot A size' iterations buf = Inr s' \<and>
           (\<forall>p < nat (sint size') * nat (sint size').
              0 \<le> sint (col s' ! p) \<and> sint (col s' ! p) < sint iterations)"
proof -
  have "0 \<le> sint size'" using assms(1) by simp
  from mandelbrot_run [OF this assms(2) assms(5), of A iterations]
  obtain s' where run: "mandelbrot A size' iterations buf = Inr s'"
    and val: "\<forall>p < nat (sint size') * nat (sint size').
           col s' ! p = (if 0 < writes A size' iterations p
                         then of_nat (writes A size' iterations p - 1) else buf ! p)"
    by blast
  have "0 \<le> sint (col s' ! p) \<and> sint (col s' ! p) < sint iterations"
    if p: "p < nat (sint size') * nat (sint size')" for p
  proof -
    let ?k = "writes A size' iterations p"
    have pos: "0 < ?k" using assms by (simp add: writes_pos)
    have le: "?k \<le> nat (sint iterations)" by (rule writes_le)
    have "col s' ! p = of_nat (?k - 1)" using val p pos by simp
    then have "sint (col s' ! p) = int ?k - 1"
      using sint_recorded [OF pos le] by (simp only:)
    then show ?thesis using pos le by simp
  qed
  with run show ?thesis by blast
qed

text \<open>
  C2 on the exact arithmetic, for a 2 by 2 grid and 3 iterations.
\<close>

theorem C2_range_witness:
  "\<exists>s'. mandelbrot rat_arith 2 3 [7, 7, 7, 7] = Inr s' \<and>
     (\<forall>p < 4. 0 \<le> sint (col s' ! p) \<and> sint (col s' ! p) < 3)"
  using C2_range [where A = rat_arith and size' = 2 and iterations = 3 and buf = "[7, 7, 7, 7]"]
  by (simp add: inside_def rat_arith_def)

text \<open>
  The bound on \<open>size\<close> is needed. For \<open>size = 46341\<close> the product \<open>size * size\<close> is
  2147488281 and no longer fits a 32-bit int: for the cell \<open>(46340, 46340)\<close> the code's
  \<^verbatim>\<open>index = i * size + j\<close> wraps around to -2147479016, and the store
  \<^verbatim>\<open>col[index] = n\<close> falls outside a buffer of \<open>size * size\<close> elements.
  The call on a buffer of 2147488281 sevens, with one iteration, does not complete.
\<close>

theorem C2_counterexample:
  "mandelbrot rat_arith 46341 1 (replicate 2147488281 7) = Inl OutOfBounds"
  using mandelbrot_oob [where A = rat_arith and size' = 46341 and iterations = 1
      and ii = 46340 and jj = 46340 and buf = "replicate 2147488281 7"]
  by (simp add: inside_def rat_arith_def)

subsection \<open>C3\<close>

text \<open>
  Claim C3, amended. For every \<open>size\<close> with \<open>0 < size \<le> 46340\<close>, every
  \<open>iterations > 0\<close> and every cell \<open>(i, j)\<close> of the grid, on a buffer of at least
  \<open>size * size\<close> elements the call returns, and afterwards: if the iterate of the cell never
  leaves the disc within \<open>iterations\<close> steps, the element at index \<open>i * size + j\<close> is
  \<open>iterations - 1\<close>; if it first leaves the disc at step \<open>n > 0\<close>, that element is \<open>n - 1\<close>.
\<close>

theorem C3_recorded_value:
  fixes i j size' iterations :: int32
  assumes "0 < sint size'" "sint size' \<le> 46340" "0 < sint iterations"
    and "0 \<le> sint i" "sint i < sint size'" "0 \<le> sint j" "sint j < sint size'"
    and "nat (sint size') * nat (sint size') \<le> length buf"
  shows "\<exists>s'. mandelbrot A size' iterations buf = Inr s' \<and>
           ((\<forall>k < nat (sint iterations).
               inside A (orbit A (cx_of A size' j) (cy_of A size' i) k)) \<longrightarrow>
            col s' ! nat (sint i * sint size' + sint j) = iterations - 1) \<and>
           (\<forall>n. 0 < n \<and> n < nat (sint iterations) \<and>
              (\<forall>k < n. inside A (orbit A (cx_of A size' j) (cy_of A size' i) k)) \<and>
              \<not> inside A (orbit A (cx_of A size' j) (cy_of A size' i) n) \<longrightarrow>
            col s' ! nat (sint i * sint size' + sint j) = of_nat n - 1)"
proof -
  let ?cx = "cx_of A size' j" and ?cy = "cy_of A size' i"
  let ?m = "nat (sint iterations)"
  let ?p = "nat (sint i * sint size' + sint j)"
  let ?k = "steps A ?cx ?cy ?m (flit A 0, flit A 0)"
  have "0 \<le> sint size'" using assms(1) by simp
  from mandelbrot_run [OF this assms(2) assms(8), of A iterations]
  obtain s' where run: "mandelbrot A size' iterations buf = Inr s'"
    and val: "\<forall>p < nat (sint size') * nat (sint size').
           col s' ! p = (if 0 < writes A size' iterations p
                         then of_nat (writes A size' iterations p - 1) else buf ! p)"
    by blast
  note pc = position_of_cell(1) [OF assms(4,5,6,7)]
    position_of_cell(2) [OF assms(4,5,6,7), where A = A and iterations = iterations]
  have here: "0 < ?k \<Longrightarrow> col s' ! ?p = of_nat (?k - 1)"
    using val pc by simp
  have never: "col s' ! ?p = iterations - 1"
    if "\<forall>k < ?m. inside A (orbit A ?cx ?cy k)"
  proof -
    have k: "?k = ?m" using that by (intro steps_all_inside) (simp add: orbit_def)
    have "(of_nat (?m - 1) :: int32) = iterations - 1"
      using assms(3) by (simp add: of_nat_diff)
    then show ?thesis using here assms(3) by (simp add: k)
  qed
  have first: "col s' ! ?p = of_nat n - 1"
    if n: "0 < n \<and> n < ?m \<and> (\<forall>k < n. inside A (orbit A ?cx ?cy k)) \<and>
       \<not> inside A (orbit A ?cx ?cy n)" for n
  proof -
    have k: "?k = n" using n by (intro steps_first_escape) (simp_all add: orbit_def)
    have "(of_nat (n - 1) :: int32) = of_nat n - 1"
      using n by (simp add: of_nat_diff)
    then show ?thesis using here n by (simp add: k)
  qed
  from run never first show ?thesis by blast
qed

text \<open>
  The two parts of C3 on the exact arithmetic: cell \<open>(1, 0)\<close> of a 2 by 2 grid never
  escapes in 3 steps, the only cell of a 1 by 1 grid first escapes at step 3.
\<close>

theorem C3_recorded_value_witness:
  "(\<exists>s'. mandelbrot rat_arith 2 3 [7, 7, 7, 7] = Inr s' \<and> col s' ! 2 = 2) \<and>
   (\<exists>s'. mandelbrot rat_arith 1 5 [7] = Inr s' \<and> col s' ! 0 = 2)"
proof
  have "\<forall>k < nat (sint (3 :: int32)).
          inside rat_arith (orbit rat_arith (cx_of rat_arith 2 0) (cy_of rat_arith 2 1) k)"
    by (simp add: numeral_3_eq_3 All_less_Suc orbit_def inside_def update_def cx_of_def
        cy_of_def rat_arith_def)
  then show "\<exists>s'. mandelbrot rat_arith 2 3 [7, 7, 7, 7] = Inr s' \<and> col s' ! 2 = 2"
    using C3_recorded_value [where A = rat_arith and size' = 2 and iterations = 3
        and i = 1 and j = 0 and buf = "[7, 7, 7, 7]"]
    by fastforce
next
  have "0 < (3::nat) \<and> 3 < nat (sint (5 :: int32)) \<and>
    (\<forall>k < 3. inside rat_arith (orbit rat_arith (cx_of rat_arith 1 0) (cy_of rat_arith 1 0) k)) \<and>
    \<not> inside rat_arith (orbit rat_arith (cx_of rat_arith 1 0) (cy_of rat_arith 1 0) 3)"
    by (simp add: numeral_3_eq_3 All_less_Suc orbit_def inside_def update_def cx_of_def
        cy_of_def rat_arith_def)
  then have esc: "0 < (3::nat) \<and> 3 < nat (sint (5 :: int32)) \<and>
    (\<forall>k < 3. inside rat_arith (orbit rat_arith (cx_of rat_arith 1 0) (cy_of rat_arith 1 0) k)) \<and>
    \<not> inside rat_arith (orbit rat_arith (cx_of rat_arith 1 0) (cy_of rat_arith 1 0) 3)" .
  have "0 < sint (1 :: int32)" "sint (1 :: int32) \<le> 46340" "0 < sint (5 :: int32)"
    "0 \<le> sint (0 :: int32)" "sint (0 :: int32) < sint (1 :: int32)"
    "nat (sint (1 :: int32)) * nat (sint (1 :: int32)) \<le> length [7 :: int32]"
    by simp_all
  from C3_recorded_value [OF this(1,2,3,4,5,4,5,6), where A = rat_arith]
  obtain s' where run: "mandelbrot rat_arith 1 5 [7] = Inr s'"
    and first: "\<forall>n. 0 < n \<and> n < nat (sint (5 :: int32)) \<and>
        (\<forall>k < n. inside rat_arith
           (orbit rat_arith (cx_of rat_arith 1 0) (cy_of rat_arith 1 0) k)) \<and>
        \<not> inside rat_arith (orbit rat_arith (cx_of rat_arith 1 0) (cy_of rat_arith 1 0) n) \<longrightarrow>
        col s' ! nat (sint (0 :: int32) * sint (1 :: int32) + sint (0 :: int32)) = of_nat n - 1"
    by blast
  from first esc have "col s' ! nat (sint (0 :: int32) * sint (1 :: int32) + sint (0 :: int32))
      = of_nat 3 - 1" by blast
  then have "col s' ! 0 = 2" by simp
  with run show "\<exists>s'. mandelbrot rat_arith 1 5 [7] = Inr s' \<and> col s' ! 0 = 2" by blast
qed

text \<open>
  The bound on \<open>size\<close> is needed. For \<open>size = 46341\<close> the product \<open>size * size\<close> is
  2147488281 and no longer fits a 32-bit int: for the cell \<open>(46340, 46340)\<close> the code's
  \<^verbatim>\<open>index = i * size + j\<close> wraps around to -2147479016, and the store
  \<^verbatim>\<open>col[index] = n\<close> falls outside a buffer of \<open>size * size\<close> elements.
  That cell does not escape at step 0, the only step of a call with one iteration, yet its
  computation and the call, on a buffer of 2147488281 threes, end in that store: nothing is
  written at \<open>i * size + j\<close>.
\<close>

theorem C3_counterexample:
  "inside rat_arith
     (orbit rat_arith (cx_of rat_arith 46341 46340) (cy_of rat_arith 46341 46340) 0) \<and>
   cell rat_arith 46341 1 46340 (cy_of rat_arith 46341 46340) 46340
     \<lparr>col = replicate 2147488281 3, stores = [], rows = 0, cells = 0\<rparr> = Inl OutOfBounds \<and>
   mandelbrot rat_arith 46341 1 (replicate 2147488281 3) = Inl OutOfBounds"
  using mandelbrot_oob [where A = rat_arith and size' = 46341 and iterations = 1
      and ii = 46340 and jj = 46340 and buf = "replicate 2147488281 3"]
    cell_oob [where A = rat_arith and size' = 46341 and iterations = 1 and i = 46340
      and j = 46340 and cy = "cy_of rat_arith 46341 46340"
      and s = "\<lparr>col = replicate 2147488281 3, stores = [], rows = 0, cells = 0\<rparr>"]
  by (simp add: inside_def orbit_def rat_arith_def)

subsection \<open>C4\<close>

text \<open>
  Claim C4, amended. The routine validates nothing and has no \<open>InvalidArgument\<close> error:
  for every call with \<open>size \<le> 0\<close> or \<open>iterations \<le> 0\<close> it returns normally, whatever the
  buffer and its length, and it has performed no store, so the buffer is untouched.
\<close>

theorem C4_no_validation:
  assumes "\<not> 0 < sint size' \<or> \<not> 0 < sint iterations"
  shows "\<exists>s'. mandelbrot A size' iterations buf = Inr s' \<and> col s' = buf \<and> stores s' = []"
proof (cases "0 < sint size'")
  case False
  then show ?thesis by (simp add: mandelbrot_no_size)
next
  case True
  with assms have "\<not> 0 < sint iterations" by simp
  with True show ?thesis by (simp add: mandelbrot_no_iterations)
qed

text \<open>
  C4 for \<open>size = -5\<close> and for \<open>iterations = 0\<close>.
\<close>

theorem C4_no_validation_witness:
  "(\<exists>s'. mandelbrot rat_arith (- 5) 3 [7, 7] = Inr s' \<and> col s' = [7, 7] \<and> stores s' = []) \<and>
   (\<exists>s'. mandelbrot rat_arith 2 0 [7] = Inr s' \<and> col s' = [7] \<and> stores s' = [])"
  using C4_no_validation [where size' = "- 5" and iterations = 3 and A = rat_arith
      and buf = "[7, 7]"]
    C4_no_validation [where size' = 2 and iterations = 0 and A = rat_arith and buf = "[7]"]
  by simp

text \<open>
  The three calls that the specification wants rejected, \<open>size = 0\<close>, \<open>size = -5\<close> and
  \<open>iterations = 0\<close>, all return normally.
\<close>

theorem C4_counterexample:
  "mandelbrot rat_arith 0 1 [7] = Inr \<lparr>col = [7], stores = [], rows = 0, cells = 0\<rparr> \<and>
   mandelbrot rat_arith (- 5) 1 [7] = Inr \<lparr>col = [7], stores = [], rows = 0, cells = 0\<rparr> \<and>
   mandelbrot rat_arith 1 0 [7] = Inr \<lparr>col = [7], stores = [], rows = 1, cells = 1\<rparr>"
  by (simp add: mandelbrot_def loop_i.simps loop_j.simps loop_n.simps cell_def word_sless_alt)

subsection \<open>C5\<close>

text \<open>
  Claim C5, amended. For every \<open>size\<close> with \<open>0 < size \<le> 46340\<close> and every
  \<open>iterations > 0\<close>, on a buffer of at least \<open>size * size\<close> elements the call returns, and
  each of the first \<open>size * size\<close> indices has been stored to by the call: it occurs in the
  log of stores, and the element holds the value of the cell's last store, whatever it held
  before the call.
\<close>

theorem C5_every_element_written:
  assumes "0 < sint size'" "sint size' \<le> 46340" "0 < sint iterations"
    and "inside A (flit A 0, flit A 0)"
    and "nat (sint size') * nat (sint size') \<le> length buf"
  shows "\<exists>s'. mandelbrot A size' iterations buf = Inr s' \<and>
           (\<forall>p < nat (sint size') * nat (sint size').
              int p \<in> set (stores s') \<and>
              col s' ! p = of_nat (writes A size' iterations p - 1))"
proof -
  have "0 \<le> sint size'" using assms(1) by simp
  from mandelbrot_run [OF this assms(2) assms(5), of A iterations]
  obtain s' where run: "mandelbrot A size' iterations buf = Inr s'"
    and val: "\<forall>p < nat (sint size') * nat (sint size').
           col s' ! p = (if 0 < writes A size' iterations p
                         then of_nat (writes A size' iterations p - 1) else buf ! p)"
    and st: "stores s' = concat (map (\<lambda>p. replicate (writes A size' iterations p) (int p))
                         [0 ..< nat (sint size') * nat (sint size')])"
    by blast
  have "int p \<in> set (stores s') \<and> col s' ! p = of_nat (writes A size' iterations p - 1)"
    if p: "p < nat (sint size') * nat (sint size')" for p
  proof -
    have pos: "0 < writes A size' iterations p" using assms by (simp add: writes_pos)
    have "int p \<in> set (stores s')" unfolding st set_stores using p pos by blast
    moreover have "col s' ! p = of_nat (writes A size' iterations p - 1)"
      using val p pos by simp
    ultimately show ?thesis by blast
  qed
  with run show ?thesis by blast
qed

text \<open>
  C5 on the exact arithmetic, for a 2 by 2 grid and 3 iterations.
\<close>

theorem C5_every_element_written_witness:
  "\<exists>s'. mandelbrot rat_arith 2 3 [7, 7, 7, 7] = Inr s' \<and>
     (\<forall>p < 4. int p \<in> set (stores s') \<and> col s' ! p = of_nat (writes rat_arith 2 3 p - 1))"
  using C5_every_element_written [where A = rat_arith and size' = 2 and iterations = 3
      and buf = "[7, 7, 7, 7]"]
  by (simp add: inside_def rat_arith_def)

text \<open>
  The bound on \<open>size\<close> is needed. For \<open>size = 46341\<close> the product \<open>size * size\<close> is
  2147488281 and no longer fits a 32-bit int: for the cell \<open>(46340, 46340)\<close> the code's
  \<^verbatim>\<open>index = i * size + j\<close> wraps around to -2147479016, and the store
  \<^verbatim>\<open>col[index] = n\<close> falls outside a buffer of \<open>size * size\<close> elements.
  The call on a buffer of 2147488281 fives, with one iteration, does not complete.
\<close>

theorem C5_counterexample:
  "mandelbrot rat_arith 46341 1 (replicate 2147488281 5) = Inl OutOfBounds"
  using mandelbrot_oob [where A = rat_arith and size' = 46341 and iterations = 1
      and ii = 46340 and jj = 46340 and buf = "replicate 2147488281 5"]
  by (simp add: inside_def rat_arith_def)

subsection \<open>C6\<close>

text \<open>
  Claim C6, amended. For every \<open>size\<close> with \<open>0 < size \<le> 46340\<close>, on a buffer of at
  least \<open>size * size\<close> elements the call with \<open>iterations = 1\<close> returns, and each of the
  first \<open>size * size\<close> elements is 0.
\<close>

theorem C6_single_iteration:
  assumes "0 < sint size'" "sint size' \<le> 46340"
    and "inside A (flit A 0, flit A 0)"
    and "nat (sint size') * nat (sint size') \<le> length buf"
  shows "\<exists>s'. mandelbrot A size' 1 buf = Inr s' \<and>
           (\<forall>p < nat (sint size') * nat (sint size'). col s' ! p = 0)"
proof -
  have "0 \<le> sint size'" using assms(1) by simp
  from mandelbrot_run [OF this assms(2) assms(4), of A 1]
  obtain s' where run: "mandelbrot A size' 1 buf = Inr s'"
    and val: "\<forall>p < nat (sint size') * nat (sint size').
           col s' ! p = (if 0 < writes A size' 1 p
                         then of_nat (writes A size' 1 p - 1) else buf ! p)"
    by blast
  have "col s' ! p = 0" if p: "p < nat (sint size') * nat (sint size')" for p
  proof -
    have "0 < writes A size' 1 p" using assms(3) by (simp add: writes_pos)
    moreover have "writes A size' 1 p \<le> 1" using writes_le [of A size' 1 p] by simp
    ultimately have "writes A size' 1 p = 1" by simp
    then show ?thesis using val p by simp
  qed
  with run show ?thesis by blast
qed

text \<open>
  C6 on the exact arithmetic, for a 2 by 2 grid.
\<close>

theorem C6_single_iteration_witness:
  "\<exists>s'. mandelbrot rat_arith 2 1 [7, 7, 7, 7] = Inr s' \<and> (\<forall>p < 4. col s' ! p = 0)"
  using C6_single_iteration [where A = rat_arith and size' = 2 and buf = "[7, 7, 7, 7]"]
  by (simp add: inside_def rat_arith_def)

text \<open>
  The bound on \<open>size\<close> is needed. For \<open>size = 46341\<close> the product \<open>size * size\<close> is
  2147488281 and no longer fits a 32-bit int: for the cell \<open>(46340, 46340)\<close> the code's
  \<^verbatim>\<open>index = i * size + j\<close> wraps around to -2147479016, and the store
  \<^verbatim>\<open>col[index] = n\<close> falls outside a buffer of \<open>size * size\<close> elements.
  The call on a buffer of 2147488281 ones, with one iteration, does not complete.
\<close>

theorem C6_counterexample:
  "mandelbrot rat_arith 46341 1 (replicate 2147488281 1) = Inl OutOfBounds"
  using mandelbrot_oob [where A = rat_arith and size' = 46341 and iterations = 1
      and ii = 46340 and jj = 46340 and buf = "replicate 2147488281 1"]
  by (simp add: inside_def rat_arith_def)

subsection \<open>C7\<close>

text \<open>
  Claim C7, amended. For every \<open>size\<close> with \<open>0 < size \<le> 46340\<close> and every
  \<open>iterations > 0\<close>, two calls on any two buffers of at least \<open>size * size\<close> elements both
  return and leave the same first \<open>size * size\<close> elements, whatever the buffers held before:
  these elements are \<open>picture A size iterations\<close>, a function of the two arguments alone.
\<close>

theorem C7_deterministic:
  assumes "0 < sint size'" "sint size' \<le> 46340" "0 < sint iterations"
    and "inside A (flit A 0, flit A 0)"
    and "nat (sint size') * nat (sint size') \<le> length buf1"
    and "nat (sint size') * nat (sint size') \<le> length buf2"
  shows "\<exists>s1 s2. mandelbrot A size' iterations buf1 = Inr s1 \<and>
           mandelbrot A size' iterations buf2 = Inr s2 \<and>
           take (nat (sint size') * nat (sint size')) (col s1) =
             take (nat (sint size') * nat (sint size')) (col s2) \<and>
           take (nat (sint size') * nat (sint size')) (col s1) = picture A size' iterations"
proof -
  let ?M = "nat (sint size') * nat (sint size')"
  have final: "\<exists>s'. mandelbrot A size' iterations buf = Inr s' \<and>
      take ?M (col s') = picture A size' iterations" if len: "?M \<le> length buf" for buf
  proof -
    have "0 \<le> sint size'" using assms(1) by simp
    from mandelbrot_run [OF this assms(2) len, of A iterations]
    obtain s' where run: "mandelbrot A size' iterations buf = Inr s'"
      and l: "length (col s') = length buf"
      and val: "\<forall>p < ?M. col s' ! p = (if 0 < writes A size' iterations p
                         then of_nat (writes A size' iterations p - 1) else buf ! p)"
      by blast
    have "take ?M (col s') = picture A size' iterations"
    proof (rule nth_equalityI)
      show "length (take ?M (col s')) = length (picture A size' iterations)"
        using l len by (simp add: picture_def)
    next
      fix p
      assume "p < length (take ?M (col s'))"
      then have p: "p < ?M" by simp
      have "0 < writes A size' iterations p" using assms by (simp add: writes_pos)
      then show "take ?M (col s') ! p = picture A size' iterations ! p"
        using val p by (simp add: picture_def)
    qed
    with run show ?thesis by blast
  qed
  from final [OF assms(5)] obtain s1 where s1: "mandelbrot A size' iterations buf1 = Inr s1"
    "take ?M (col s1) = picture A size' iterations" by blast
  from final [OF assms(6)] obtain s2 where s2: "mandelbrot A size' iterations buf2 = Inr s2"
    "take ?M (col s2) = picture A size' iterations" by blast
  from s1 s2 have "take ?M (col s1) = take ?M (col s2)" by simp
  with s1 s2 show ?thesis by blast
qed

text \<open>
  C7 on the exact arithmetic, for a 2 by 2 grid, 3 iterations and two different buffers.
\<close>

theorem C7_deterministic_witness:
  "\<exists>s1 s2. mandelbrot rat_arith 2 3 [7, 7, 7, 7] = Inr s1 \<and>
     mandelbrot rat_arith 2 3 [0, 1, 2, 3, 4] = Inr s2 \<and>
     take 4 (col s1) = take 4 (col s2) \<and> take 4 (col s1) = picture rat_arith 2 3"
  using C7_deterministic [where A = rat_arith and size' = 2 and iterations = 3
      and ?buf1.0 = "[7, 7, 7, 7]" and ?buf2.0 = "[0, 1, 2, 3, 4]"]
  by (simp add: inside_def rat_arith_def)

text \<open>
  The bound on \<open>size\<close> is needed. For \<open>size = 46341\<close> the product \<open>size * size\<close> is
  2147488281 and no longer fits a 32-bit int: for the cell \<open>(46340, 46340)\<close> the code's
  \<^verbatim>\<open>index = i * size + j\<close> wraps around to -2147479016, and the store
  \<^verbatim>\<open>col[index] = n\<close> falls outside a buffer of \<open>size * size\<close> elements.
  Neither of two calls with one iteration, on a buffer of 2147488281 zeros and on one of
  2147488281 sevens, completes: no output buffers are produced that could be compared.
\<close>

theorem C7_counterexample:
  "mandelbrot rat_arith 46341 1 (replicate 2147488281 0) = Inl OutOfBounds \<and>
   mandelbrot rat_arith 46341 1 (replicate 2147488281 7) = Inl OutOfBounds"
  using mandelbrot_oob [where A = rat_arith and size' = 46341 and iterations = 1
      and ii = 46340 and jj = 46340 and buf = "replicate 2147488281 0"]
    mandelbrot_oob [where A = rat_arith and size' = 46341 and iterations = 1
      and ii = 46340 and jj = 46340 and buf = "replicate 2147488281 7"]
  by (simp add: inside_def rat_arith_def)

subsection \<open>C8\<close>

text \<open>
  Claim C8, amended. For every \<open>size\<close> with \<open>0 < size \<le> 46340\<close> and every \<open>iterations\<close>,
  on a buffer of at least \<open>size * size\<close> elements the call returns, so no store has fallen
  outside the buffer, and every store it has performed is at an index \<open>i * size + j\<close> with
  \<open>0 \<le> i < size\<close> and \<open>0 \<le> j < size\<close>, which lies in \<open>[0, size * size)\<close>. The routine
  never reads the buffer.
\<close>

theorem C8_stores_in_bounds:
  assumes "0 < sint size'" "sint size' \<le> 46340"
    and "nat (sint size') * nat (sint size') \<le> length buf"
  shows "\<exists>s'. mandelbrot A size' iterations buf = Inr s' \<and>
           (\<forall>x \<in> set (stores s').
              (\<exists>i j. 0 \<le> i \<and> i < sint size' \<and> 0 \<le> j \<and> j < sint size' \<and>
                     x = i * sint size' + j) \<and>
              0 \<le> x \<and> x < sint size' * sint size')"
proof -
  let ?N = "nat (sint size')"
  have N: "int ?N = sint size'" "0 < ?N" using assms(1) by simp_all
  have "0 \<le> sint size'" using assms(1) by simp
  from mandelbrot_run [OF this assms(2) assms(3), of A iterations]
  obtain s' where run: "mandelbrot A size' iterations buf = Inr s'"
    and st: "stores s' = concat (map (\<lambda>p. replicate (writes A size' iterations p) (int p))
                         [0 ..< ?N * ?N])"
    by blast
  have "(\<exists>i j. 0 \<le> i \<and> i < sint size' \<and> 0 \<le> j \<and> j < sint size' \<and>
                     x = i * sint size' + j) \<and> 0 \<le> x \<and> x < sint size' * sint size'"
    if "x \<in> set (stores s')" for x
  proof -
    from that obtain q where q: "q < ?N * ?N" and x: "x = int q"
      unfolding st set_stores by blast
    from cell_of_position [OF N(2) q] obtain a b
      where ab: "a < ?N" "b < ?N" "int q = int a * int ?N + int b"
      by blast
    have "0 \<le> int a \<and> int a < int ?N \<and> 0 \<le> int b \<and> int b < int ?N \<and>
          x = int a * int ?N + int b"
      using ab x by (simp only: of_nat_less_iff of_nat_0_le_iff simp_thms)
    then have "\<exists>i j. 0 \<le> i \<and> i < sint size' \<and> 0 \<le> j \<and> j < sint size' \<and>
                     x = i * sint size' + j"
      unfolding N(1) by blast
    moreover have "0 \<le> x" using x by simp
    moreover have "x < sint size' * sint size'"
    proof -
      have "int q < int (?N * ?N)" using q by (simp only: of_nat_less_iff)
      then show ?thesis using x N(1) by (simp only: of_nat_mult)
    qed
    ultimately show ?thesis by blast
  qed
  with run show ?thesis by blast
qed

text \<open>
  C8 on the exact arithmetic, for a 2 by 2 grid and 3 iterations.
\<close>

theorem C8_stores_in_bounds_witness:
  "\<exists>s'. mandelbrot rat_arith 2 3 [7, 7, 7, 7] = Inr s' \<and>
     (\<forall>x \<in> set (stores s').
        (\<exists>i j. 0 \<le> i \<and> i < 2 \<and> 0 \<le> j \<and> j < 2 \<and> x = i * 2 + j) \<and> 0 \<le> x \<and> x < 4)"
  using C8_stores_in_bounds [where A = rat_arith and size' = 2 and iterations = 3
      and buf = "[7, 7, 7, 7]"]
  by simp

text \<open>
  The bound on \<open>size\<close> is needed. For \<open>size = 46341\<close> the product \<open>size * size\<close> is
  2147488281 and no longer fits a 32-bit int: for the cell \<open>(46340, 46340)\<close> the code's
  \<^verbatim>\<open>index = i * size + j\<close> wraps around to -2147479016, and the store
  \<^verbatim>\<open>col[index] = n\<close> falls outside a buffer of \<open>size * size\<close> elements.
  The call on a buffer of 2147488281 zeros, with one iteration, performs that store.
\<close>

theorem C8_counterexample:
  "sint (46340 * 46341 + 46340 :: int32) = - 2147479016 \<and>
   mandelbrot rat_arith 46341 1 (replicate 2147488281 0) = Inl OutOfBounds"
  using mandelbrot_oob [where A = rat_arith and size' = 46341 and iterations = 1
      and ii = 46340 and jj = 46340 and buf = "replicate 2147488281 0"]
  by (simp add: inside_def rat_arith_def)

subsection \<open>C9\<close>

text \<open>
  Claim C9, amended. For every \<open>size\<close> with \<open>0 < size \<le> 46340\<close> and every
  \<open>iterations > 0\<close>, on a buffer of at least \<open>size * size\<close> elements the call returns, and
  each index in \<open>[0, size * size)\<close> has been stored to once for every step of its cell that
  did not escape: at least once and at most \<open>iterations\<close> times. No two cells alias: different
  cells \<open>(i, j)\<close> have different indices.
\<close>

theorem C9_writes_per_index:
  assumes "0 < sint size'" "sint size' \<le> 46340" "0 < sint iterations"
    and "inside A (flit A 0, flit A 0)"
    and "nat (sint size') * nat (sint size') \<le> length buf"
  shows "\<exists>s'. mandelbrot A size' iterations buf = Inr s' \<and>
           (\<forall>p < nat (sint size') * nat (sint size').
              count_list (stores s') (int p) = writes A size' iterations p \<and>
              1 \<le> writes A size' iterations p \<and>
              writes A size' iterations p \<le> nat (sint iterations)) \<and>
           (\<forall>i j i' j'. i < nat (sint size') \<and> j < nat (sint size') \<and>
              i' < nat (sint size') \<and> j' < nat (sint size') \<and>
              sint ((of_nat i :: int32) * size' + of_nat j) =
              sint ((of_nat i' :: int32) * size' + of_nat j') \<longrightarrow> i = i' \<and> j = j')"
proof -
  let ?N = "nat (sint size')"
  have N: "?N \<le> 46340" using assms(2) by simp
  have sz: "size' = of_nat ?N" using assms(1) by simp
  have "0 \<le> sint size'" using assms(1) by simp
  from mandelbrot_run [OF this assms(2) assms(5), of A iterations]
  obtain s' where run: "mandelbrot A size' iterations buf = Inr s'"
    and st: "stores s' = concat (map (\<lambda>p. replicate (writes A size' iterations p) (int p))
                         [0 ..< ?N * ?N])"
    by blast
  have "count_list (stores s') (int p) = writes A size' iterations p \<and>
        1 \<le> writes A size' iterations p \<and> writes A size' iterations p \<le> nat (sint iterations)"
    if "p < ?N * ?N" for p
    using that writes_pos [OF assms(3,4), of size' p] writes_le [of A size' iterations p]
    unfolding st count_stores by simp
  moreover have "i = i' \<and> j = j'"
    if "i < ?N \<and> j < ?N \<and> i' < ?N \<and> j' < ?N \<and>
        sint ((of_nat i :: int32) * size' + of_nat j) =
        sint ((of_nat i' :: int32) * size' + of_nat j')" for i j i' j'
    using that index_injective [OF N sz, of i j i' j'] by blast
  ultimately show ?thesis using run by blast
qed

text \<open>
  C9 on the exact arithmetic, for a 2 by 2 grid and 3 iterations.
\<close>

theorem C9_writes_per_index_witness:
  "\<exists>s'. mandelbrot rat_arith 2 3 [7, 7, 7, 7] = Inr s' \<and>
     (\<forall>p < 4. count_list (stores s') (int p) = writes rat_arith 2 3 p \<and>
        1 \<le> writes rat_arith 2 3 p \<and> writes rat_arith 2 3 p \<le> 3) \<and>
     (\<forall>i j i' j'. i < 2 \<and> j < 2 \<and> i' < 2 \<and> j' < 2 \<and>
        sint ((of_nat i :: int32) * 2 + of_nat j) = sint ((of_nat i' :: int32) * 2 + of_nat j')
        \<longrightarrow> i = i' \<and> j = j')"
  using C9_writes_per_index [where A = rat_arith and size' = 2 and iterations = 3
      and buf = "[7, 7, 7, 7]"]
  by (simp add: inside_def rat_arith_def)

text \<open>
  The store is inside the \<open>n\<close> loop, so an index is not written exactly once: for
  \<open>size = 1\<close> and \<open>iterations = 2\<close> index 0 is stored to twice, with 0 and then 1.
\<close>

theorem C9_counterexample:
  "mandelbrot rat_arith 1 2 [7] = Inr \<lparr>col = [1], stores = [0, 0], rows = 1, cells = 1\<rparr>"
  by (simp add: mandelbrot_def loop_i.simps loop_j.simps loop_n.simps cell_def store_def
      cx_of_def cy_of_def rat_arith_def word_sless_alt)

subsection \<open>C10\<close>

text \<open>
  Claim C10, amended. For every call with \<open>size \<le> 0\<close> or \<open>iterations \<le> 0\<close> the routine
  returns normally, with no error and no store, so every element of the buffer is
  unchanged. For \<open>size \<le> 0\<close> both grid loops execute zero iterations. For \<open>size > 0\<close> and
  \<open>iterations \<le> 0\<close> the grid loops still visit all \<open>size\<close> rows and \<open>size * size\<close> cells,
  and it is the \<open>n\<close> loop of each cell that executes zero iterations.
\<close>

theorem C10_degenerate_call:
  "(\<not> 0 < sint size' \<longrightarrow>
      mandelbrot A size' iterations buf = Inr \<lparr>col = buf, stores = [], rows = 0, cells = 0\<rparr>) \<and>
   (0 < sint size' \<and> \<not> 0 < sint iterations \<longrightarrow>
      mandelbrot A size' iterations buf =
        Inr \<lparr>col = buf, stores = [], rows = nat (sint size'),
             cells = nat (sint size') * nat (sint size')\<rparr>)"
  by (simp add: mandelbrot_no_size mandelbrot_no_iterations)

text \<open>
  C10 for \<open>size = -5\<close> and for \<open>size = 3\<close> with \<open>iterations = -1\<close>.
\<close>

theorem C10_degenerate_call_witness:
  "mandelbrot rat_arith (- 5) 3 [7] = Inr \<lparr>col = [7], stores = [], rows = 0, cells = 0\<rparr> \<and>
   mandelbrot rat_arith 3 (- 1) [7] = Inr \<lparr>col = [7], stores = [], rows = 3, cells = 9\<rparr>"
  using C10_degenerate_call [where size' = "- 5" and iterations = 3 and A = rat_arith
      and buf = "[7]"]
    C10_degenerate_call [where size' = 3 and iterations = "- 1" and A = rat_arith
      and buf = "[7]"]
  by simp

text \<open>
  For \<open>size = 1\<close> and \<open>iterations = 0\<close> the body of each grid loop is entered once.
\<close>

theorem C10_counterexample:
  "mandelbrot rat_arith 1 0 [7] = Inr \<lparr>col = [7], stores = [], rows = 1, cells = 1\<rparr>"
  by (simp add: mandelbrot_def loop_i.simps loop_j.simps loop_n.simps cell_def word_sless_alt)

end
